theory Spec2Isabelle
  imports Complex_Main "HOL-Library.While_Combinator"
begin

section \<open>Aborts\<close>

text \<open>
  The functions abort through \<open>Log::REFatal\<close>; reading or writing a \<open>std::vector\<close>
  outside its size and resizing to a negative size are undefined or throw.  Each is a
  value of \<open>abort\<close>, so that a run of the model is either \<open>Inl\<close> an abort or \<open>Inr\<close>
  the outputs.
\<close>

datatype fatal_msg =
    TimeOrderingWithoutSpaceTime
  | DuplicateCoordinates
  | RandCoefWithDynamicNeighbors
  | NonPositiveD

datatype abort = Fatal fatal_msg | OutOfBounds | NegativeSize


section \<open>Doubles with their special values\<close>

text \<open>
  Where the code depends on the infinities of \<open>double\<close> (the reciprocal of a zero
  diagonal entry in lines 1798--1811, the initial \<open>+inf\<close> of the nearest-neighbor
  distances), the values are modelled with the special values of IEEE 754 written out: \<open>Num x\<close> is the finite value \<open>x\<close> (\<open>Num 0\<close> is \<open>+0.0\<close>), \<open>NegZero\<close> is
  \<open>-0.0\<close>.  Arithmetic between finite values is modelled exactly, without rounding,
  overflow or underflow.
\<close>

datatype double = Num real | NegZero | PInf | NInf | NaN

text \<open>\<open>1. / x\<close>: a zero divisor gives the infinity of its sign.\<close>

fun recip :: "double \<Rightarrow> double" where
  "recip (Num x) = (if x = 0 then PInf else Num (1 / x))"
| "recip NegZero = NInf"
| "recip PInf = Num 0"
| "recip NInf = NegZero"
| "recip NaN = NaN"

text \<open>The comparisons \<open>a < b\<close> and \<open>x <= 0.\<close>; a comparison with \<open>NaN\<close> is false.\<close>

fun finite_value :: "double \<Rightarrow> real" where
  "finite_value (Num x) = x"
| "finite_value _ = 0"

fun double_less :: "double \<Rightarrow> double \<Rightarrow> bool" where
  "double_less NaN _ = False"
| "double_less _ NaN = False"
| "double_less NInf NInf = False"
| "double_less NInf _ = True"
| "double_less _ NInf = False"
| "double_less PInf _ = False"
| "double_less _ PInf = True"
| "double_less a b = (finite_value a < finite_value b)"

fun double_le_zero :: "double \<Rightarrow> bool" where
  "double_le_zero (Num x) = (x \<le> 0)"
| "double_le_zero NegZero = True"
| "double_le_zero PInf = False"
| "double_le_zero NInf = True"
| "double_le_zero NaN = False"

section \<open>The distance kernel: \<open>distances_funct\<close>\<close>

text \<open>
  Vectors (\<open>vec_t\<close>) are lists, the coordinate matrix is the list of its rows and
  \<open>chol_ip_cross_cov\<close> the list of its columns (one column per data point).  The inputs
  are finite values, modelled by the reals, and the arithmetic between them is exact.
  The output vector \<open>distances\<close> is a list of \<open>double\<close>: the last steps of the formula
  can leave the finite values, see \<open>distance_entry\<close>.

  The function has two parameters through which it can write: \<open>distances\<close>, and the
  vector \<open>re_comps_resid_cluster_i\<close> of shared pointers, a non-\<open>const\<close> reference, on
  whose first component the method \<open>CalcSigmaAndSigmaGradVecchia\<close> is called.  The
  class \<open>RECompGP\<close> (\<open>re_comp.h\<close>) is not among the sources, so a component is a value of
  a type \<open>'s\<close> and the method is a parameter: given the component, the distance column
  (empty unless distances are saved), the query row and the candidate rows, it returns
  the entries \<open>corr_mat.data()\<close> and the component as the call leaves it.  The model
  returns both writable parameters as they are after the call.  All other parameters
  are \<open>const\<close> references or copies.
\<close>

type_synonym 's cov_module =
  "'s \<Rightarrow> real list \<Rightarrow> real list \<Rightarrow> real list list \<Rightarrow> real list \<times> 's"

definition dot :: "real list \<Rightarrow> real list \<Rightarrow> real" where
  "dot a b = sum_list (map2 (*) a b)"

definition lpNorm2_diff :: "real list \<Rightarrow> real list \<Rightarrow> real" where
  "lpNorm2_diff a b = sqrt (sum_list (map2 (\<lambda>x y. (x - y) * (x - y)) a b))"

definition in_range :: "int \<Rightarrow> 'a list \<Rightarrow> bool" where
  "in_range i xs = (0 \<le> i \<and> i < int (length xs))"

text \<open>
  Lines 55--56, one entry:
  \<^verbatim>\<open>
  distances[j] = std::sqrt((1. - std::pow(std::abs((corr_mat.data()[j] - pp_node[j]) /
      std::sqrt(corr_diag_sample * corr_diag[coords_ind_j[j]])), (double)0.1)));
  \<close>
  \<open>std::sqrt\<close> of a negative number is \<open>NaN\<close>, and so is the whole expression when the
  product of the two \<open>corr_diag\<close> entries is negative.  When the product is zero the
  quotient is an infinity or \<open>NaN\<close>, its power is \<open>+inf\<close> or \<open>NaN\<close>, and the root of
  \<open>1 - inf\<close> is \<open>NaN\<close> again.  For a positive product the quotient is finite;
  \<open>std::pow(x, 0.1)\<close> for \<open>x \<ge> 0\<close> is \<open>x powr (1 / 10)\<close>, and the outer root is \<open>NaN\<close> when
  its argument is negative.
\<close>

definition distance_entry :: "real \<Rightarrow> real \<Rightarrow> real \<Rightarrow> real \<Rightarrow> double" where
  "distance_entry corr pp corr_diag_sample corr_diag_j =
     (if corr_diag_sample * corr_diag_j \<le> 0 then NaN
      else
        let radicand = 1 - \<bar>(corr - pp) / sqrt (corr_diag_sample * corr_diag_j)\<bar> powr (1 / 10)
        in if radicand < 0 then NaN else Num (sqrt radicand))"

text \<open>
  \<^verbatim>\<open>
  if (dist_function == "residual_correlation_FSA") {
    vec_t pp_node(coords_ind_j.size());
    vec_t chol_ip_cross_cov_sample = chol_ip_cross_cov.col(coord_ind_i);
    for (j ...) pp_node[j] = chol_ip_cross_cov.col(coords_ind_j[j]).dot(chol_ip_cross_cov_sample);
    coords_i = coords(coord_ind_i, Eigen::all);
    coords_j = coords(coords_ind_j, Eigen::all);
    if (distances_saved) { for (j ...) dist_ij(j, 0) = (coords_j(j, all) - coords_i).lpNorm<2>(); }
    re_comps_resid_cluster_i[0]->CalcSigmaAndSigmaGradVecchia(dist_ij, coords_i, coords_j,
        corr_mat, corr_mat_deriv.data(), false, true, 1., false);
    double corr_diag_sample = corr_diag(coord_ind_i);
    for (j ...) distances[j] = ...;
  }
  \<close>
  The output vector \<open>distances\<close> is overwritten at the positions \<open>j < coords_ind_j.size()\<close>.
  Reading a row, a column or an entry outside its container, the first component of an
  empty component vector, or a covariance result shorter than the candidate list, is
  the abort \<open>OutOfBounds\<close>.
\<close>

definition pp_node_of :: "real list list \<Rightarrow> int \<Rightarrow> int list \<Rightarrow> real list" where
  "pp_node_of chol i J = map (\<lambda>j. dot (chol ! nat j) (chol ! nat i)) J"

definition dist_ij_of :: "bool \<Rightarrow> real list list \<Rightarrow> int \<Rightarrow> int list \<Rightarrow> real list" where
  "dist_ij_of distances_saved coords i J =
     (if distances_saved then map (\<lambda>j. lpNorm2_diff (coords ! nat j) (coords ! nat i)) J else [])"

definition distances_funct ::
  "'s cov_module \<Rightarrow> int \<Rightarrow> int list \<Rightarrow> real list list \<Rightarrow> real list \<Rightarrow> real list list
     \<Rightarrow> 's list \<Rightarrow> double list \<Rightarrow> string \<Rightarrow> bool \<Rightarrow> abort + (double list \<times> 's list)" where
  "distances_funct CalcSigmaAndSigmaGradVecchia coord_ind_i coords_ind_j coords corr_diag
       chol_ip_cross_cov re_comps_resid_cluster_i distances dist_function distances_saved =
     (if dist_function = ''residual_correlation_FSA''
      then
        if \<not> (in_range coord_ind_i coords \<and> in_range coord_ind_i corr_diag
                \<and> in_range coord_ind_i chol_ip_cross_cov
                \<and> list_all (\<lambda>j. in_range j coords \<and> in_range j corr_diag
                                  \<and> in_range j chol_ip_cross_cov) coords_ind_j
                \<and> length coords_ind_j \<le> length distances)
        then Inl OutOfBounds
        else
          (case re_comps_resid_cluster_i of
             [] \<Rightarrow> Inl OutOfBounds
           | first_comp # others \<Rightarrow>
               let pp_node = pp_node_of chol_ip_cross_cov coord_ind_i coords_ind_j;
                   coords_i = coords ! nat coord_ind_i;
                   coords_j = map (\<lambda>j. coords ! nat j) coords_ind_j;
                   dist_ij = dist_ij_of distances_saved coords coord_ind_i coords_ind_j;
                   (corr_mat, re_comp_after) =
                      CalcSigmaAndSigmaGradVecchia first_comp dist_ij coords_i coords_j;
                   corr_diag_sample = corr_diag ! nat coord_ind_i
               in if length corr_mat < length coords_ind_j then Inl OutOfBounds
                  else Inr (map (\<lambda>j. distance_entry (corr_mat ! j) (pp_node ! j) corr_diag_sample
                                        (corr_diag ! nat (coords_ind_j ! j)))
                                [0 ..< length coords_ind_j]
                            @ drop (length coords_ind_j) distances,
                            re_comp_after # others))
      else Inr (distances, re_comps_resid_cluster_i))"

section \<open>The cover tree: \<open>CoverTree_kNN\<close>\<close>

text \<open>
  A \<open>std::map<int, std::vector<int>>\<close> is an association list kept in increasing key
  order, the order in which the code iterates over it.  \<open>map_insert\<close> is
  \<open>std::map::insert\<close> (an existing key keeps its value), \<open>map_at\<close> is a write through
  \<open>operator[]\<close> (an absent key starts from the empty vector).
\<close>

type_synonym int_map = "(int \<times> int list) list"

fun map_insert :: "int \<Rightarrow> int list \<Rightarrow> int_map \<Rightarrow> int_map" where
  "map_insert k v [] = [(k, v)]"
| "map_insert k v ((k', v') # m) =
     (if k < k' then (k, v) # (k', v') # m
      else if k = k' then (k', v') # m
      else (k', v') # map_insert k v m)"

fun map_at :: "int \<Rightarrow> (int list \<Rightarrow> int list) \<Rightarrow> int_map \<Rightarrow> int_map" where
  "map_at k f [] = [(k, f [])]"
| "map_at k f ((k', v') # m) =
     (if k < k' then (k, f []) # (k', v') # m
      else if k = k' then (k', f v') # m
      else (k', v') # map_at k f m)"

definition map_get :: "int_map \<Rightarrow> int \<Rightarrow> int list" where
  "map_get m k = (case map_of m k of None \<Rightarrow> [] | Some v \<Rightarrow> v)"

text \<open>\<open>std::set_difference\<close> on two sorted ranges, as the standard algorithm runs.\<close>

fun set_difference :: "int list \<Rightarrow> int list \<Rightarrow> int list" where
  "set_difference [] ys = []"
| "set_difference (x # xs) [] = x # xs"
| "set_difference (x # xs) (y # ys) =
     (if x < y then x # set_difference xs (y # ys)
      else if y < x then set_difference (x # xs) ys
      else set_difference xs ys)"

lemma length_set_difference: "length (set_difference xs ys) \<le> length xs"
  by (induction xs ys rule: set_difference.induct) auto

text \<open>
  The distance \<open>d s j\<close> stands for the entry that \<open>distances_funct\<close> writes for the query
  \<open>s\<close> and the candidate \<open>j\<close>, both local indices of the segment handed to
  \<open>CoverTree_kNN\<close>.

  Lines 121--130: the candidates within \<open>R_l\<close> of the sample are appended to
  \<open>covert_points[sample_ind]\<close>, the entry being created at the first of them.
\<close>

definition add_covered :: "int \<Rightarrow> int list \<Rightarrow> real list \<Rightarrow> real \<Rightarrow> int_map \<Rightarrow> int_map" where
  "add_covered sample_ind up dist_vect R_l covert_points =
     fold (\<lambda>(j, dj) cp.
             if dj \<le> R_l
             then (if map_of cp sample_ind = None then map_insert sample_ind [j] cp
                   else map_at sample_ind (\<lambda>v. v @ [j]) cp)
             else cp)
          (zip up dist_vect) covert_points"

text \<open>
  Lines 107--139, the loop \<open>while (not_all_covered)\<close> for one key: the first remaining
  point becomes a child of the key, covers the later points within \<open>R_l\<close>, and these
  leave the remaining list.  The state is the pair of \<open>cover_tree\<close> and \<open>covert_points\<close>.
\<close>

function sample_loop ::
  "(int \<Rightarrow> int \<Rightarrow> real) \<Rightarrow> real \<Rightarrow> int \<Rightarrow> int \<Rightarrow> int list \<Rightarrow> int_map \<times> int_map
     \<Rightarrow> int_map \<times> int_map" where
  "sample_loop d R_l start key [] (cover_tree, covert_points) = (cover_tree, covert_points)"
| "sample_loop d R_l start key (sample_ind # rest) (cover_tree, covert_points) =
     (let cover_tree1 = map_at (key + start) (\<lambda>v. v @ [sample_ind + start]) cover_tree;
          covert_points_old_i_up = filter (\<lambda>j. j > sample_ind) (sample_ind # rest);
          dist_vect = map (d sample_ind) covert_points_old_i_up;
          covert_points1 = add_covered sample_ind covert_points_old_i_up dist_vect R_l
                             covert_points;
          covert_points2 = map_at sample_ind (\<lambda>v. v) covert_points1;
          covert_points_vect = map_get covert_points2 sample_ind
      in sample_loop d R_l start key (set_difference rest covert_points_vect)
           (cover_tree1, covert_points2))"
  by pat_completeness auto
termination
  by (relation "measure (\<lambda>(d, R_l, start, key, pts, st). length pts)")
     (auto simp: length_set_difference less_Suc_eq_le)

text \<open>
  Lines 98--142, one pass of the outer loop: \<open>level\<close> is incremented, \<open>R_l = R_max /
  pow(base, level)\<close> with \<open>R_max = 1\<close>, every key of \<open>covert_points_old\<close> is inserted into
  the tree as its own first child and its points are sampled.
\<close>

record build_state =
  cover_tree :: int_map
  level :: int
  covert_points_old :: int_map

definition level_pass ::
  "(int \<Rightarrow> int \<Rightarrow> real) \<Rightarrow> real \<Rightarrow> int \<Rightarrow> build_state \<Rightarrow> build_state" where
  "level_pass d base start st =
     (let level1 = level st + 1;
          R_l = 1 / base ^ nat level1;
          (ct, cp) = fold (\<lambda>(key, pts) (ct, cp).
                             sample_loop d R_l start key pts
                               (map_insert (key + start) [key + start] ct, cp))
                          (covert_points_old st) (cover_tree st, [])
      in \<lparr> cover_tree = ct, level = level1, covert_points_old = cp \<rparr>)"

text \<open>
  The outer loop \<open>while ((cover_tree.size() - 1) != coords.rows())\<close>.  It is not
  structurally recursive; a run that never leaves the loop has the value \<open>None\<close>.
\<close>

partial_function (option) build_loop ::
  "(int \<Rightarrow> int \<Rightarrow> real) \<Rightarrow> real \<Rightarrow> int \<Rightarrow> int \<Rightarrow> build_state \<Rightarrow> build_state option" where
  "build_loop d base start n st =
     (if int (length (cover_tree st)) - 1 \<noteq> n
      then build_loop d base start n (level_pass d base start st)
      else Some st)"

declare build_loop.simps [code]

text \<open>
  Lines 84--95: the root is the first point of the segment, under the key \<open>-1\<close>; all
  other points are the uncovered set of the local point \<open>0\<close>.  \<open>all_indices\<close> has
  \<open>coords.rows() - 1\<close> entries, which is a negative size for an empty segment.
\<close>

definition initial_build_state :: "int \<Rightarrow> int \<Rightarrow> build_state" where
  "initial_build_state start n =
     \<lparr> cover_tree = [(- 1, [start])], level = 0, covert_points_old = [(0, [1 .. n - 1])] \<rparr>"

definition CoverTree_kNN ::
  "(int \<Rightarrow> int \<Rightarrow> real) \<Rightarrow> real \<Rightarrow> int \<Rightarrow> int \<Rightarrow> (abort + int_map \<times> int) option" where
  "CoverTree_kNN d base start n =
     (if n < 1 then Some (Inl NegativeSize)
      else map_option (\<lambda>st. Inr (cover_tree st, level st))
             (build_loop d base start n (initial_build_state start n)))"

section \<open>Nearest-neighbor selection and the query: \<open>find_kNN_CoverTree\<close>\<close>












section \<open>Neighbor search orchestration: \<open>find_nearest_neighbors_Vecchia_FSA_fast\<close>\<close>

text \<open>
  The C++ \<open>int\<close> parameters (\<open>num_data\<close>, \<open>num_neighbors\<close>, \<open>start_at\<close>,
  \<open>end_search_at\<close>) are modelled as \<open>int\<close>; they are counts and indices far below
  the 32-bit limit, so no wrap-around is written out.  \<open>Log::REInfo\<close> is modelled by
  returning the logged message as a value.
\<close>

datatype log_msg = NumNeighborsReduced int int int

text \<open>
  Lines 733--739 of \<open>Vecchia_utils.h\<close>:
  \<^verbatim>\<open>
  if (end_search_at < 0) { end_search_at = num_data - 2; }
  if (num_neighbors > end_search_at + 1) {
    Log::REInfo("The number of neighbors (%d) ... (%d). It is set to %d.",
                num_neighbors, end_search_at + 2, end_search_at + 1);
    num_neighbors = end_search_at + 1;
  }
  \<close>
  The result is the pair of the (possibly reduced) \<open>num_neighbors\<close> and the log.
\<close>

definition default_end_search_at :: "int \<Rightarrow> int \<Rightarrow> int" where
  "default_end_search_at num_data end_search_at =
     (if end_search_at < 0 then num_data - 2 else end_search_at)"

definition clamp_num_neighbors :: "int \<Rightarrow> int \<Rightarrow> int \<Rightarrow> int \<times> log_msg list" where
  "clamp_num_neighbors num_data num_neighbors end_search_at =
     (let e = default_end_search_at num_data end_search_at in
      if num_neighbors > e + 1
      then (e + 1, [NumNeighborsReduced num_neighbors (e + 2) (e + 1)])
      else (num_neighbors, []))"

text \<open>
  Lines 789--795: the first searched index and the brute-force threshold.
  \<^verbatim>\<open>
  int first_i = (start_at <= num_neighbors) ? (num_neighbors + 1) : start_at;
  int brute_force_threshold = std::min(num_data, std::max(1000, num_neighbors));
  if (prediction) {
    brute_force_threshold = std::min(num_data, std::max(first_i + 500, num_neighbors));
  }
  \<close>
\<close>

definition first_i :: "int \<Rightarrow> int \<Rightarrow> int" where
  "first_i start_at num_neighbors =
     (if start_at \<le> num_neighbors then num_neighbors + 1 else start_at)"

definition brute_force_threshold :: "int \<Rightarrow> int \<Rightarrow> int \<Rightarrow> bool \<Rightarrow> int" where
  "brute_force_threshold num_data num_neighbors start_at prediction =
     (if prediction
      then min num_data (max (first_i start_at num_neighbors + 500) num_neighbors)
      else min num_data (max 1000 num_neighbors))"

text \<open>
  The two search loops run only under \<open>if (num_data > num_neighbors)\<close> (line 789).
  The brute-force loop (line 801) is \<open>for (i = first_i; i < brute_force_threshold; ++i)\<close>;
  the cover-tree loop (line 899) is \<open>for (i = brute_force_threshold; i < num_data; ++i)\<close>
  under \<open>if (brute_force_threshold < num_data)\<close> (line 837).  The index lists the two
  loops run over:
\<close>

definition brute_force_indices :: "int \<Rightarrow> int \<Rightarrow> int \<Rightarrow> bool \<Rightarrow> int list" where
  "brute_force_indices num_data num_neighbors start_at prediction =
     (if num_data > num_neighbors
      then [first_i start_at num_neighbors ..
            brute_force_threshold num_data num_neighbors start_at prediction - 1]
      else [])"

definition cover_tree_indices :: "int \<Rightarrow> int \<Rightarrow> int \<Rightarrow> bool \<Rightarrow> int list" where
  "cover_tree_indices num_data num_neighbors start_at prediction =
     (if num_data > num_neighbors \<and>
         brute_force_threshold num_data num_neighbors start_at prediction < num_data
      then [brute_force_threshold num_data num_neighbors start_at prediction .. num_data - 1]
      else [])"


section \<open>Component construction: \<open>CreateREComponentsVecchia\<close>\<close>

text \<open>
  A Gaussian-process component (\<open>RECompGP\<close>, declared in \<open>re_comp.h\<close>) is seen through
  the observers the function calls: \<open>GetNumUniqueREs\<close>, \<open>ShouldSaveDistances\<close>,
  \<open>IsSpaceTimeModel\<close>, and the Euclidean distance between two rows of \<open>GetCoords()\<close>.
\<close>

record re_comp =
  GetNumUniqueREs :: int
  ShouldSaveDistances :: bool
  IsSpaceTimeModel :: bool
  coords_dist :: "int \<Rightarrow> int \<Rightarrow> real"

type_synonym triplet = "int \<times> int \<times> real"

text \<open>
  What the function takes from outside this file: \<open>std::shuffle\<close> with the generator
  state, \<open>SortIndeces\<close> (\<open>utils.h\<close>), the \<open>RECompGP\<close> constructor applied to the
  ordered coordinates, the residual component \<open>re_comps_resid_cluster_i[ind_intercept_gp]\<close>,
  \<open>find_nearest_neighbors_Vecchia_fast\<close> (declared only; it returns the neighbor lists
  and the duplicate flag), and the constant \<open>EPSILON_NUMBERS\<close>.
\<close>

record 'rng collaborators =
  shuffle :: "'rng \<Rightarrow> int list \<Rightarrow> int list \<times> 'rng"
  SortIndeces :: "real list \<Rightarrow> nat list"
  new_RECompGP :: "int list \<Rightarrow> bool \<Rightarrow> re_comp"
  re_comp_resid :: re_comp
  find_nearest_neighbors_Vecchia_fast ::
    "re_comp \<Rightarrow> int \<Rightarrow> bool \<Rightarrow> 'rng \<Rightarrow> int list list \<times> bool \<times> 'rng"
  EPSILON_NUMBERS :: real

record 'rng create_in =
  num_data :: int
  data_indices :: "int list"
  gp_coords_time :: "int \<Rightarrow> real"
  gp_rand_coef_data :: "int \<Rightarrow> int \<Rightarrow> real"
  vecchia_ordering :: string
  num_neighbors :: int
  vecchia_neighbor_selection :: string
  check_has_duplicates :: bool
  has_duplicates_coords :: bool
  rng :: 'rng
  num_gp_rand_coef :: int
  num_gp_total :: int
  num_comps_total :: int
  gauss_likelihood :: bool
  gp_approx :: string

record 'rng create_out =
  data_indices_out :: "int list"
  rng_out :: 'rng
  only_one_GP_calculations_on_RE_scale :: bool
  re_comp_used :: re_comp
  nearest_neighbors :: "int list list"
  has_duplicates_coords_out :: bool
  entries_init_B :: "triplet list"
  entries_init_B_grad :: "triplet list"
  rand_coef_comps :: "real list list"
  z_outer_z_obs_neighbors :: "real list list list list"

text \<open>
  Lines 1211--1213: the random pre-permutation.
  \<^verbatim>\<open>
  if ((vecchia_ordering == "random" || vecchia_ordering == "time_random_space")
      && gp_approx != "full_scale_vecchia") {
    std::shuffle(data_indices_per_cluster[cluster_i].begin(), ..., rng);
  }
  \<close>
\<close>

definition pre_shuffle ::
  "('rng \<Rightarrow> int list \<Rightarrow> int list \<times> 'rng) \<Rightarrow> string \<Rightarrow> string \<Rightarrow> 'rng \<Rightarrow> int list
     \<Rightarrow> int list \<times> 'rng" where
  "pre_shuffle shuf ord_s approx g idx =
     (if (ord_s = ''random'' \<or> ord_s = ''time_random_space'')
         \<and> approx \<noteq> ''full_scale_vecchia''
      then shuf g idx else (idx, g))"

text \<open>
  Lines 1221--1237: for the two time orderings the points are sorted by their first
  coordinate; \<open>data_indices[i] = dt_idx_unsorted[sort_time[i]]\<close>.
\<close>

definition time_sort ::
  "(real list \<Rightarrow> nat list) \<Rightarrow> (int \<Rightarrow> real) \<Rightarrow> string \<Rightarrow> int list \<Rightarrow> int list" where
  "time_sort sort_idx time ord_s idx =
     (if ord_s = ''time'' \<or> ord_s = ''time_random_space''
      then map (\<lambda>p. idx ! p) (sort_idx (map time idx))
      else idx)"

text \<open>
  Lines 1274--1300, the residual-correlation branch: the neighbor vector of point \<open>i\<close>
  is \<open>0, \<dots>, i - 1\<close> for \<open>0 < i \<le> num_neighbors\<close> and is resized to \<open>num_neighbors\<close>
  (value-initialised, so all entries \<open>0\<close>) for \<open>i > num_neighbors\<close>.  Entries of the
  vector beyond \<open>num_data\<close> stay empty.
\<close>

definition init_neighbors_i :: "int \<Rightarrow> int \<Rightarrow> int list" where
  "init_neighbors_i k i =
     (if 0 < i \<and> i \<le> k then [0 .. i - 1]
      else if i > k then replicate (nat k) 0
      else [])"

definition init_neighbors :: "int \<Rightarrow> int \<Rightarrow> int \<Rightarrow> int list list" where
  "init_neighbors num_unique n k =
     map (\<lambda>i. if i < n then init_neighbors_i k i else []) [0 .. num_unique - 1]"

text \<open>
  The duplicate flag of the same loop: once set it stays set, and a distance is only
  compared while \<open>check_has_duplicates && !has_duplicates\<close>.
\<close>

definition init_has_duplicates ::
  "(int \<Rightarrow> int \<Rightarrow> real) \<Rightarrow> real \<Rightarrow> bool \<Rightarrow> int \<Rightarrow> int \<Rightarrow> bool" where
  "init_has_duplicates d eps check n k =
     fold (\<lambda>i h. if 0 < i \<and> i \<le> k
                 then fold (\<lambda>j h'. if check \<and> \<not> h' then (if d j i < eps then True else h')
                                    else h') [0 .. i - 1] h
                 else h)
          [0 .. n - 1] False"

text \<open>
  The loop writes \<open>nearest_neighbors_cluster_i[i]\<close> for \<open>i < num_data\<close> although the
  vector has \<open>GetNumUniqueREs()\<close> entries, and \<open>resize(num_neighbors)\<close> is reached at
  \<open>i = 0\<close> when \<open>num_neighbors\<close> is negative.  The first of these events, if any:
\<close>

definition init_loop_abort :: "int \<Rightarrow> int \<Rightarrow> int \<Rightarrow> abort option" where
  "init_loop_abort num_unique n k =
     (if k < 0 \<and> n > 0 then (if num_unique \<le> 0 then Some OutOfBounds else Some NegativeSize)
      else if n - 1 \<ge> max 1 num_unique then Some OutOfBounds
      else None)"

text \<open>
  Lines 1312--1318: the triplets that initialise \<open>B\<close> and its gradients.
  \<^verbatim>\<open>
  for (int i = 0; i < re_comp->GetNumUniqueREs(); ++i) {
    for (int j = 0; j < (int)nearest_neighbors_cluster_i[i].size(); ++j) {
      entries_init_B_cluster_i.push_back(Triplet_t(i, nearest_neighbors_cluster_i[i][j], 0.));
      entries_init_B_grad_cluster_i.push_back(Triplet_t(i, nearest_neighbors_cluster_i[i][j], 0.));
    }
    entries_init_B_cluster_i.push_back(Triplet_t(i, i, 1.));
  }
  \<close>
\<close>

definition init_B_triplets :: "int \<Rightarrow> int list list \<Rightarrow> triplet list" where
  "init_B_triplets num_unique nn =
     concat (map (\<lambda>i. map (\<lambda>j. (i, j, 0)) (nn ! nat i) @ [(i, i, 1)])
                 [0 .. num_unique - 1])"

definition init_B_grad_triplets :: "int \<Rightarrow> int list list \<Rightarrow> triplet list" where
  "init_B_grad_triplets num_unique nn =
     concat (map (\<lambda>i. map (\<lambda>j. (i, j, 0)) (nn ! nat i)) [0 .. num_unique - 1])"

text \<open>
  Lines 1326--1357: one component per random-coefficient process, and for every point
  the outer product of the coefficients at the point and at its neighbors.  The loop
  over the points reads \<open>rand_coef_data\<close> (one entry per data index) at the point and at
  each neighbor, and \<open>nearest_neighbors_cluster_i\<close> and \<open>z_outer_z_obs_neighbors_cluster_i\<close>
  (\<open>GetNumUniqueREs()\<close> entries each) at the point.  Line 1325 gives
  \<open>z_outer_z_obs_neighbors_cluster_i\<close> one entry per unique location; the entries
  beyond the data indices of the cluster are never written and stay empty.
\<close>

definition outer_product :: "real list \<Rightarrow> real list list" where
  "outer_product v = map (\<lambda>a. map (\<lambda>b. a * b) v) v"

definition rand_coef_data_of :: "(int \<Rightarrow> int \<Rightarrow> real) \<Rightarrow> int list \<Rightarrow> int \<Rightarrow> real list" where
  "rand_coef_data_of coef idx j = map (\<lambda>id. coef j id) idx"

definition z_outer_z_of :: "real list \<Rightarrow> int list list \<Rightarrow> int \<Rightarrow> real list list" where
  "z_outer_z_of rcd nn i =
     outer_product (rcd ! nat i # (if i > 0 then map (\<lambda>p. rcd ! nat p) (nn ! nat i) else []))"

definition rand_coef_in_bounds :: "int \<Rightarrow> int \<Rightarrow> int list list \<Rightarrow> bool" where
  "rand_coef_in_bounds num_unique len nn =
     (len \<le> num_unique \<and>
      list_all (\<lambda>i. i = 0 \<or> list_all (\<lambda>p. 0 \<le> p \<and> p < len) (nn ! nat i)) [0 .. len - 1])"

text \<open>
  The order of the data indices after the pre-permutation and the time sort, and the
  component whose observers the rest of the function reads (lines 1250--1256):
  the residual component under \<open>full_scale_vecchia\<close> with \<open>residual_correlation\<close>,
  the newly constructed one otherwise.
\<close>

definition ordered_indices :: "'rng collaborators \<Rightarrow> 'rng create_in \<Rightarrow> int list \<times> 'rng" where
  "ordered_indices env inp =
     (let (idx1, g1) = pre_shuffle (shuffle env) (vecchia_ordering inp) (gp_approx inp)
                         (rng inp) (data_indices inp)
      in (time_sort (SortIndeces env) (gp_coords_time inp) (vecchia_ordering inp) idx1, g1))"

definition selected_re_comp :: "'rng collaborators \<Rightarrow> 'rng create_in \<Rightarrow> re_comp" where
  "selected_re_comp env inp =
     (if gp_approx inp = ''full_scale_vecchia''
         \<and> vecchia_neighbor_selection inp = ''residual_correlation''
      then re_comp_resid env
      else new_RECompGP env (fst (ordered_indices env inp))
             (num_gp_total inp = 1 \<and> num_comps_total inp = 1 \<and> \<not> gauss_likelihood inp))"

text \<open>
  The neighbor lists, the duplicate flag and the generator state after the neighbor
  search (lines 1264--1301), and the flag \<open>has_duplicates_coords\<close> after line 1306.
\<close>

definition neighbor_stage ::
  "'rng collaborators \<Rightarrow> 'rng create_in \<Rightarrow> int list list \<times> bool \<times> 'rng" where
  "neighbor_stage env inp =
     (let rc = selected_re_comp env inp in
      if vecchia_neighbor_selection inp \<noteq> ''residual_correlation''
      then find_nearest_neighbors_Vecchia_fast env rc (num_neighbors inp)
             (check_has_duplicates inp) (snd (ordered_indices env inp))
      else (init_neighbors (GetNumUniqueREs rc) (num_data inp) (num_neighbors inp),
            init_has_duplicates (coords_dist rc) (EPSILON_NUMBERS env)
              (check_has_duplicates inp) (num_data inp) (num_neighbors inp),
            snd (ordered_indices env inp)))"

definition duplicates_flag :: "'rng collaborators \<Rightarrow> 'rng create_in \<Rightarrow> bool" where
  "duplicates_flag env inp =
     (if check_has_duplicates inp
      then has_duplicates_coords inp \<or> fst (snd (neighbor_stage env inp))
      else has_duplicates_coords inp)"

text \<open>
  The aborts of the function in the order in which the code reaches them: the
  initialisation loop of the residual-correlation branch, the fatal error of line 1303,
  the fatal error of line 1308, the triplet loop reading the neighbor vector, the fatal
  error of line 1322, the random-coefficient loop.
\<close>

definition create_abort :: "'rng collaborators \<Rightarrow> 'rng create_in \<Rightarrow> abort option" where
  "create_abort env inp =
     (let rc = selected_re_comp env inp;
          early = (if vecchia_neighbor_selection inp = ''residual_correlation''
                   then init_loop_abort (GetNumUniqueREs rc) (num_data inp) (num_neighbors inp)
                   else None)
      in
      if early \<noteq> None then early
      else if (vecchia_ordering inp = ''time'' \<or> vecchia_ordering inp = ''time_random_space'')
              \<and> \<not> IsSpaceTimeModel rc
      then Some (Fatal TimeOrderingWithoutSpaceTime)
      else if check_has_duplicates inp \<and> \<not> gauss_likelihood inp \<and> duplicates_flag env inp
      then Some (Fatal DuplicateCoordinates)
      else if int (length (fst (neighbor_stage env inp))) < GetNumUniqueREs rc
      then Some OutOfBounds
      else if num_gp_rand_coef inp > 0 \<and> \<not> ShouldSaveDistances rc
      then Some (Fatal RandCoefWithDynamicNeighbors)
      else if num_gp_rand_coef inp > 0
              \<and> \<not> rand_coef_in_bounds (GetNumUniqueREs rc)
                    (int (length (fst (ordered_indices env inp)))) (fst (neighbor_stage env inp))
      then Some OutOfBounds
      else None)"

definition create_result :: "'rng collaborators \<Rightarrow> 'rng create_in \<Rightarrow> 'rng create_out" where
  "create_result env inp =
     (let idx = fst (ordered_indices env inp);
          rc = selected_re_comp env inp;
          nn = fst (neighbor_stage env inp);
          rcs = (if num_gp_rand_coef inp > 0
                 then map (rand_coef_data_of (gp_rand_coef_data inp) idx)
                        [0 .. num_gp_rand_coef inp - 1]
                 else [])
      in \<lparr> data_indices_out = idx,
           rng_out = snd (snd (neighbor_stage env inp)),
           only_one_GP_calculations_on_RE_scale =
             (if GetNumUniqueREs rc = int (length idx) then False
              else num_gp_total inp = 1 \<and> num_comps_total inp = 1 \<and> \<not> gauss_likelihood inp),
           re_comp_used = rc,
           nearest_neighbors = nn,
           has_duplicates_coords_out = duplicates_flag env inp,
           entries_init_B = init_B_triplets (GetNumUniqueREs rc) nn,
           entries_init_B_grad = init_B_grad_triplets (GetNumUniqueREs rc) nn,
           rand_coef_comps = rcs,
           z_outer_z_obs_neighbors =
             (if num_gp_rand_coef inp > 0
              then map (\<lambda>i. if i < int (length idx)
                             then map (\<lambda>rcd. z_outer_z_of rcd nn i) rcs
                             else [])
                     [0 .. GetNumUniqueREs rc - 1]
              else []) \<rparr>)"

definition CreateREComponentsVecchia ::
  "'rng collaborators \<Rightarrow> 'rng create_in \<Rightarrow> abort + 'rng create_out" where
  "CreateREComponentsVecchia env inp =
     (case create_abort env inp of
        Some a \<Rightarrow> Inl a
      | None \<Rightarrow> Inr (create_result env inp))"

text \<open>
  The condition under which the function reaches its random-coefficient block without
  an out-of-range access or a negative resize: in the residual-correlation branch the
  initialisation loop stays within the vector, in the other branch the neighbor vector
  handed back still has an entry for each point.
\<close>

definition vector_accesses_in_bounds :: "'rng collaborators \<Rightarrow> 'rng create_in \<Rightarrow> bool" where
  "vector_accesses_in_bounds env inp =
     (let rc = selected_re_comp env inp in
      if vecchia_neighbor_selection inp = ''residual_correlation''
      then init_loop_abort (GetNumUniqueREs rc) (num_data inp) (num_neighbors inp) = None
      else GetNumUniqueREs rc \<le>
           int (length (fst (find_nearest_neighbors_Vecchia_fast env rc (num_neighbors inp)
                  (check_has_duplicates inp) (snd (ordered_indices env inp))))))"

subsection \<open>A concrete run\<close>

text \<open>
  Four points on a line, two neighbors, random ordering requested; the stand-in for
  \<open>std::shuffle\<close> reverses the list, so that a shuffle is visible in the output.
\<close>

definition example_comp :: "int \<Rightarrow> bool \<Rightarrow> re_comp" where
  "example_comp n save =
     \<lparr> GetNumUniqueREs = n, ShouldSaveDistances = save, IsSpaceTimeModel = False,
       coords_dist = (\<lambda>i j. \<bar>real_of_int i - real_of_int j\<bar>) \<rparr>"

definition example_env :: "nat collaborators" where
  "example_env =
     \<lparr> shuffle = (\<lambda>g xs. (rev xs, Suc g)),
       SortIndeces = (\<lambda>ts. [0 ..< length ts]),
       new_RECompGP = (\<lambda>idx b. example_comp (int (length idx)) True),
       re_comp_resid = example_comp 4 False,
       find_nearest_neighbors_Vecchia_fast =
         (\<lambda>rc k chk g. (map (\<lambda>i. [0 .. min k i - 1]) [0 .. GetNumUniqueREs rc - 1], False, g)),
       EPSILON_NUMBERS = 1 / 10 \<rparr>"

definition example_in :: "string \<Rightarrow> int \<Rightarrow> nat create_in" where
  "example_in approx n_rand =
     \<lparr> num_data = 4, data_indices = [0, 1, 2, 3], gp_coords_time = (\<lambda>i. 0),
       gp_rand_coef_data = (\<lambda>j i. 1), vecchia_ordering = ''random'', num_neighbors = 2,
       vecchia_neighbor_selection = ''residual_correlation'', check_has_duplicates = False,
       has_duplicates_coords = False, rng = 0, num_gp_rand_coef = n_rand,
       num_gp_total = 1 + n_rand, num_comps_total = 1 + n_rand, gauss_likelihood = True,
       gp_approx = approx \<rparr>"

definition example_out :: "nat create_out" where
  "example_out =
     \<lparr> data_indices_out = [0, 1, 2, 3], rng_out = 0,
       only_one_GP_calculations_on_RE_scale = False,
       re_comp_used = example_comp 4 False,
       nearest_neighbors = [[], [0], [0, 1], [0, 0]],
       has_duplicates_coords_out = False,
       entries_init_B = [(0, 0, 1), (1, 0, 0), (1, 1, 1), (2, 0, 0), (2, 1, 0), (2, 2, 1),
                         (3, 0, 0), (3, 0, 0), (3, 3, 1)],
       entries_init_B_grad = [(1, 0, 0), (2, 0, 0), (2, 1, 0), (3, 0, 0), (3, 0, 0)],
       rand_coef_comps = [], z_outer_z_obs_neighbors = [] \<rparr>"

lemma length_init_neighbors [simp]: "length (init_neighbors u n k) = nat u"
  by (simp add: init_neighbors_def)

lemma example_init_neighbors: "init_neighbors 4 4 2 = [[], [0], [0, 1], [0, 0]]"
  by code_simp

lemma example_init_B_triplets:
  "init_B_triplets 4 [[], [0], [0, 1], [0, 0]] =
     [(0, 0, 1), (1, 0, 0), (1, 1, 1), (2, 0, 0), (2, 1, 0), (2, 2, 1),
      (3, 0, 0), (3, 0, 0), (3, 3, 1)]"
  by code_simp

lemma example_init_B_grad_triplets:
  "init_B_grad_triplets 4 [[], [0], [0, 1], [0, 0]] =
     [(1, 0, 0), (2, 0, 0), (2, 1, 0), (3, 0, 0), (3, 0, 0)]"
  by code_simp

lemma example_init_has_duplicates:
  "init_has_duplicates (\<lambda>i j. \<bar>real_of_int i - real_of_int j\<bar>) (1 / 10) False 4 2 = False"
  by code_simp

lemmas example_defs = example_in_def example_env_def example_comp_def
  CreateREComponentsVecchia_def create_abort_def create_result_def neighbor_stage_def
  duplicates_flag_def ordered_indices_def pre_shuffle_def time_sort_def
  selected_re_comp_def init_loop_abort_def vector_accesses_in_bounds_def

lemma example_run:
  "CreateREComponentsVecchia example_env (example_in ''full_scale_vecchia'' 0) = Inr example_out"
  by (simp add: example_defs example_out_def example_init_neighbors example_init_B_triplets
      example_init_B_grad_triplets example_init_has_duplicates)

section \<open>The final check of \<open>CalcCovFactorVecchia\<close>\<close>

text \<open>
  \<open>minCoeff\<close> of the Eigen library, as its visitor computes it: start from the first
  coefficient and replace the result by each later coefficient that compares smaller.
  Eigen does not define it on an empty vector.
\<close>

fun minCoeff :: "double list \<Rightarrow> double option" where
  "minCoeff [] = None"
| "minCoeff (x # xs) = Some (fold (\<lambda>v r. if double_less v r then v else r) xs x)"

datatype log_level = Warning | Info

text \<open>
  Line 1798 ends the loop body, \<open>D_inv(i, i) = 1. / D_inv(i, i)\<close>: the diagonal that
  holds \<open>D\<close> is overwritten by its reciprocal.  Lines 1800--1811 then test the smallest
  reciprocal:
  \<^verbatim>\<open>
  double min_D_inv = D_inv_cluster_i.diagonal().minCoeff(&minRow, &minCol);
  if (min_D_inv <= 0.) {
    const char* min_D_inv_below_zero_msg = "The matrix D in the Vecchia approximation
      contains negative or zero values. ...";
    if (gauss_likelihood) { Log::REWarning(min_D_inv_below_zero_msg); }
    else { Log::REFatal(min_D_inv_below_zero_msg); }
  }
  \<close>
  The model takes the diagonal of \<open>D\<close> as the loop has accumulated it and returns the
  inverted diagonal with the messages logged, or the abort.
\<close>

definition invert_D :: "double list \<Rightarrow> double list" where
  "invert_D D = map recip D"

definition check_min_D_inv ::
  "bool \<Rightarrow> double list \<Rightarrow> abort + (double list \<times> (log_level \<times> fatal_msg) list)" where
  "check_min_D_inv gauss D_inv =
     (case minCoeff D_inv of
        None \<Rightarrow> Inl OutOfBounds
      | Some min_D_inv \<Rightarrow>
          if double_le_zero min_D_inv
          then (if gauss then Inr (D_inv, [(Warning, NonPositiveD)])
                else Inl (Fatal NonPositiveD))
          else Inr (D_inv, []))"

definition finish_CalcCovFactorVecchia ::
  "bool \<Rightarrow> double list \<Rightarrow> abort + (double list \<times> (log_level \<times> fatal_msg) list)" where
  "finish_CalcCovFactorVecchia gauss D = check_min_D_inv gauss (invert_D D)"

text \<open>
  The diagonal entry of the first point (\<open>i = 0\<close>, which has no neighbors) with a single
  Gaussian process: the initial value of lines 1508--1514, minus the squared norm of
  the column of \<open>chol_ip_cross_cov\<close> under \<open>full_scale_vecchia\<close> (line 1575), plus the
  marginal variance (lines 1695--1705).
\<close>

definition D_first_point :: "bool \<Rightarrow> bool \<Rightarrow> real \<Rightarrow> string \<Rightarrow> real list \<Rightarrow> real \<Rightarrow> real" where
  "D_first_point gauss transf_scale nugget_var approx chol_col sigma2 =
     (let init = (if \<not> gauss then 0 else if \<not> transf_scale then nugget_var else 1);
          fsa = (if approx = ''full_scale_vecchia''
                 then init - sum_list (map (\<lambda>q. q * q) chol_col) else init);
          d_comp = (if \<not> transf_scale \<and> gauss then sigma2 * nugget_var else sigma2)
      in fsa + d_comp)"

section \<open>Claims about component construction\<close>

text \<open>
  Claim C9: with at least one random-coefficient process and a selected covariance
  component whose \<open>ShouldSaveDistances()\<close> is false, \<open>CreateREComponentsVecchia\<close> ends in
  a fatal error and constructs no random-coefficient component: it ends in the fatal
  error of line 1322, unless one of the two fatal errors before it (lines 1303, 1308)
  was raised first.  The hypothesis \<open>vector_accesses_in_bounds\<close> excludes the runs whose
  behaviour C++ leaves undefined.
\<close>

theorem C9_rand_coef_fatal:
  assumes "num_gp_rand_coef inp > 0"
    and "\<not> ShouldSaveDistances (selected_re_comp env inp)"
    and "vector_accesses_in_bounds env inp"
  shows "CreateREComponentsVecchia env inp \<in>
           {Inl (Fatal TimeOrderingWithoutSpaceTime), Inl (Fatal DuplicateCoordinates),
            Inl (Fatal RandCoefWithDynamicNeighbors)}"
proof -
  have "int (length (fst (neighbor_stage env inp))) \<ge> GetNumUniqueREs (selected_re_comp env inp)"
    using assms(3) by (simp add: vector_accesses_in_bounds_def neighbor_stage_def Let_def)
  moreover have "vecchia_neighbor_selection inp = ''residual_correlation'' \<Longrightarrow>
      init_loop_abort (GetNumUniqueREs (selected_re_comp env inp)) (num_data inp)
        (num_neighbors inp) = None"
    using assms(3) by (simp add: vector_accesses_in_bounds_def Let_def)
  ultimately show ?thesis
    using assms(1,2) by (simp add: CreateREComponentsVecchia_def create_abort_def Let_def)
qed

theorem C9_rand_coef_fatal_witness:
  "num_gp_rand_coef (example_in ''full_scale_vecchia'' 1) > 0
   \<and> \<not> ShouldSaveDistances (selected_re_comp example_env (example_in ''full_scale_vecchia'' 1))
   \<and> vector_accesses_in_bounds example_env (example_in ''full_scale_vecchia'' 1)
   \<and> CreateREComponentsVecchia example_env (example_in ''full_scale_vecchia'' 1)
       = Inl (Fatal RandCoefWithDynamicNeighbors)"
  using C9_rand_coef_fatal [of "example_in ''full_scale_vecchia'' 1" example_env]
  by (simp add: example_defs)

text \<open>
  Claim C10: the random pre-permutation of the data indices is applied exactly when
  \<open>vecchia_ordering\<close> is \<open>random\<close> or \<open>time_random_space\<close> and \<open>gp_approx\<close> is not
  \<open>full_scale_vecchia\<close>; under \<open>full_scale_vecchia\<close> the order that reaches the time
  sort is the input order, whatever the ordering setting.
\<close>

theorem C10_pre_permutation:
  assumes "CreateREComponentsVecchia env inp = Inr out"
  shows "data_indices_out out =
           time_sort (SortIndeces env) (gp_coords_time inp) (vecchia_ordering inp)
             (if (vecchia_ordering inp = ''random'' \<or> vecchia_ordering inp = ''time_random_space'')
                 \<and> gp_approx inp \<noteq> ''full_scale_vecchia''
              then fst (shuffle env (rng inp) (data_indices inp))
              else data_indices inp)
         \<and> (gp_approx inp = ''full_scale_vecchia'' \<and> vecchia_ordering inp = ''random''
              \<longrightarrow> data_indices_out out = data_indices inp)"
proof -
  have "out = create_result env inp"
    using assms by (simp add: CreateREComponentsVecchia_def split: option.splits)
  then have "data_indices_out out = fst (ordered_indices env inp)"
    by (simp add: create_result_def Let_def)
  then show ?thesis
    by (simp add: ordered_indices_def pre_shuffle_def time_sort_def split: prod.splits)
qed

theorem C10_pre_permutation_witness:
  "CreateREComponentsVecchia example_env (example_in ''full_scale_vecchia'' 0) = Inr example_out
   \<and> gp_approx (example_in ''full_scale_vecchia'' 0) = ''full_scale_vecchia''
   \<and> vecchia_ordering (example_in ''full_scale_vecchia'' 0) = ''random''
   \<and> fst (shuffle example_env (rng (example_in ''full_scale_vecchia'' 0))
            (data_indices (example_in ''full_scale_vecchia'' 0))) = [3, 2, 1, 0]
   \<and> data_indices_out example_out = [0, 1, 2, 3]"
  using C10_pre_permutation [OF example_run] example_run
  by (simp add: example_in_def example_env_def example_out_def)

section \<open>Predicted-first prediction: the end of \<open>CalcPredVecchiaPredictedFirstOrder\<close>\<close>

text \<open>
  Matrices and vectors are functions of their indices, read only below their
  dimensions, with entries in the reals; a product carries its inner dimension.
  \<open>cond_prec\<close>, \<open>y_aux\<close> and \<open>pred_mean\<close> are the Eigen expressions of lines 2434--2438:
  \<^verbatim>\<open>
  sp_mat_t cond_prec = Bp.transpose() * Dp_inv.asDiagonal() * Bp
                     + Bop.transpose() * Do_inv.asDiagonal() * Bop;
  chol_sp_mat_t CholFact;
  CholFact.compute(cond_prec);
  vec_t y_aux = Bop.transpose() * (Do_inv.asDiagonal() * (Bo * y_cluster_i));
  pred_mean = -CholFact.solve(y_aux);
  \<close>
  \<open>Bp\<close> is \<open>np \<times> np\<close>, \<open>Bop\<close> is \<open>no \<times> np\<close>, \<open>Bo\<close> is \<open>no \<times> no\<close>.  The loop before
  these lines leaves the reciprocals \<open>1 / D\<close> in \<open>Dp_inv\<close> and \<open>Do_inv\<close>.  The sparse
  Cholesky solver of the Eigen library is a parameter.
\<close>

type_synonym vec = "nat \<Rightarrow> real"
type_synonym mat = "nat \<Rightarrow> nat \<Rightarrow> real"

definition transpose_m :: "mat \<Rightarrow> mat" where
  "transpose_m A = (\<lambda>i j. A j i)"

definition asDiagonal :: "vec \<Rightarrow> mat" where
  "asDiagonal v = (\<lambda>i j. if i = j then v i else 0)"

definition mat_mul :: "nat \<Rightarrow> mat \<Rightarrow> mat \<Rightarrow> mat" where
  "mat_mul m A B = (\<lambda>i j. \<Sum>k<m. A i k * B k j)"

definition mat_vec :: "nat \<Rightarrow> mat \<Rightarrow> vec \<Rightarrow> vec" where
  "mat_vec m A x = (\<lambda>i. \<Sum>k<m. A i k * x k)"

definition mat_add :: "mat \<Rightarrow> mat \<Rightarrow> mat" where
  "mat_add A B = (\<lambda>i j. A i j + B i j)"

definition vec_neg :: "vec \<Rightarrow> vec" where
  "vec_neg x = (\<lambda>i. - x i)"

definition reciprocals :: "vec \<Rightarrow> vec" where
  "reciprocals D = (\<lambda>i. 1 / D i)"

definition cond_prec :: "nat \<Rightarrow> nat \<Rightarrow> mat \<Rightarrow> mat \<Rightarrow> vec \<Rightarrow> vec \<Rightarrow> mat" where
  "cond_prec np no Bp Bop Dp_inv Do_inv =
     mat_add (mat_mul np (mat_mul np (transpose_m Bp) (asDiagonal Dp_inv)) Bp)
             (mat_mul no (mat_mul no (transpose_m Bop) (asDiagonal Do_inv)) Bop)"

definition y_aux :: "nat \<Rightarrow> mat \<Rightarrow> mat \<Rightarrow> vec \<Rightarrow> vec \<Rightarrow> vec" where
  "y_aux no Bop Bo Do_inv y =
     mat_vec no (transpose_m Bop) (mat_vec no (asDiagonal Do_inv) (mat_vec no Bo y))"

definition pred_mean ::
  "(mat \<Rightarrow> vec \<Rightarrow> vec) \<Rightarrow> nat \<Rightarrow> nat \<Rightarrow> mat \<Rightarrow> mat \<Rightarrow> mat \<Rightarrow> vec \<Rightarrow> vec \<Rightarrow> vec \<Rightarrow> vec" where
  "pred_mean chol_solve np no Bp Bop Bo Dp Do y =
     vec_neg (chol_solve (cond_prec np no Bp Bop (reciprocals Dp) (reciprocals Do))
                (y_aux no Bop Bo (reciprocals Do) y))"

text \<open>
  The two sides of the specification's system, written from its formulas: the precision
  \<open>B\<^sub>p\<^sup>T D\<^sub>p\<^sup>-\<^sup>1 B\<^sub>p + B\<^sub>o\<^sub>p\<^sup>T D\<^sub>o\<^sup>-\<^sup>1 B\<^sub>o\<^sub>p\<close> entry by entry, and the
  right-hand side \<open>(B\<^sub>o\<^sub>p\<^sup>T D\<^sub>o\<^sup>-\<^sup>1 B\<^sub>o) y\<close> as a matrix applied to \<open>y\<close>.
\<close>

definition spec_precision :: "nat \<Rightarrow> nat \<Rightarrow> mat \<Rightarrow> mat \<Rightarrow> vec \<Rightarrow> vec \<Rightarrow> mat" where
  "spec_precision np no Bp Bop Dp Do =
     (\<lambda>i j. (\<Sum>k<np. Bp k i * inverse (Dp k) * Bp k j)
           + (\<Sum>k<no. Bop k i * inverse (Do k) * Bop k j))"

definition spec_rhs :: "nat \<Rightarrow> mat \<Rightarrow> mat \<Rightarrow> vec \<Rightarrow> vec \<Rightarrow> vec" where
  "spec_rhs no Bop Bo Do y =
     mat_vec no (mat_mul no (mat_mul no (transpose_m Bop) (asDiagonal (\<lambda>k. inverse (Do k)))) Bo) y"

subsection \<open>A concrete tree\<close>

text \<open>
  Five points.  The distances are those of a residual process with correlations
  \<open>|rho| = (1 - d\<^sup>2)\<^sup>1\<^sup>0\<close>: point \<open>0\<close> is uncorrelated with the others, and the
  correlation matrix of the points \<open>1, \<dots>, 4\<close> is positive definite.
\<close>

definition example_distance :: "int \<Rightarrow> int \<Rightarrow> real" where
  "example_distance a b =
     (let lo = min a b; hi = max a b in
      if lo = hi then 0
      else if (lo, hi) = (1, 2) then 2 / 5
      else if (lo, hi) = (1, 3) then 9 / 20
      else if (lo, hi) = (1, 4) then 3 / 10
      else if (lo, hi) = (2, 3) then 11 / 50
      else if (lo, hi) = (2, 4) then 9 / 10
      else if (lo, hi) = (3, 4) then 1 / 5
      else 1)"

definition example_tree :: int_map where
  "example_tree = [(- 1, [0]), (0, [0, 1]), (1, [1, 2, 4]), (2, [2, 3]), (3, [3]), (4, [4])]"

lemma example_tree_built: "CoverTree_kNN example_distance 2 0 5 = Some (Inr (example_tree, 4))"
  by code_simp

section \<open>Properties of the cover-tree construction\<close>

text \<open>
  An association list is well formed when its keys increase strictly; the operations of
  \<open>std::map\<close> keep it so, and on well-formed lists they are the updates of the finite
  map \<open>map_of\<close>.
\<close>

definition wf_map :: "int_map \<Rightarrow> bool" where
  "wf_map m = sorted_wrt (<) (map fst m)"

definition keys :: "int_map \<Rightarrow> int set" where
  "keys m = set (map fst m)"

lemma wf_map_Nil [simp]: "wf_map []" by (simp add: wf_map_def)
lemma keys_Nil [simp]: "keys [] = {}" by (simp add: keys_def)

lemma wf_map_Cons [simp]: "wf_map ((k, v) # m) \<longleftrightarrow> (\<forall>x \<in> keys m. k < x) \<and> wf_map m"
  by (auto simp: wf_map_def keys_def)

lemma keys_Cons [simp]: "keys ((k, v) # m) = insert k (keys m)"
  by (simp add: keys_def)

lemma wf_map_distinct: "wf_map m \<Longrightarrow> distinct (map fst m)"
  by (induction m) (force simp: keys_def)+

lemma keys_map_insert [simp]: "keys (map_insert k v m) = insert k (keys m)"
  by (induction k v m rule: map_insert.induct) auto

lemma keys_map_at [simp]: "keys (map_at k f m) = insert k (keys m)"
  by (induction k f m rule: map_at.induct) auto

lemma wf_map_insert [simp]: "wf_map m \<Longrightarrow> wf_map (map_insert k v m)"
  by (induction k v m rule: map_insert.induct) auto

lemma wf_map_at [simp]: "wf_map m \<Longrightarrow> wf_map (map_at k f m)"
  by (induction k f m rule: map_at.induct) auto

lemma map_of_None_keys: "map_of m k = None \<longleftrightarrow> k \<notin> keys m"
  by (simp add: keys_def map_of_eq_None_iff)

lemma map_of_wf_Cons: "wf_map ((k', v') # m) \<Longrightarrow> k < k' \<Longrightarrow> map_of m k = None"
  by (auto simp: map_of_None_keys)

lemma map_of_map_insert:
  "wf_map m \<Longrightarrow> map_of (map_insert k v m) = (if k \<in> keys m then map_of m else (map_of m)(k \<mapsto> v))"
  by (induction k v m rule: map_insert.induct) (auto simp: fun_eq_iff map_of_None_keys)

lemma map_get_map_insert:
  "wf_map m \<Longrightarrow> map_get (map_insert k v m) x = (if x = k \<and> k \<notin> keys m then v else map_get m x)"
  by (simp add: map_get_def map_of_map_insert)

lemma map_of_map_at:
  "wf_map m \<Longrightarrow> map_of (map_at k f m) = (map_of m)(k \<mapsto> f (map_get m k))"
proof (induction k f m rule: map_at.induct)
  case (1 k f) then show ?case by (simp add: map_get_def)
next
  case (2 k f k' v' m)
  have "k < k' \<Longrightarrow> map_of m k = None"
    using 2(2) by (force simp: map_of_None_keys)
  then show ?case using 2 by (auto simp: fun_eq_iff map_get_def)
qed

lemma map_get_map_at:
  "wf_map m \<Longrightarrow> map_get (map_at k f m) x = (if x = k then f (map_get m k) else map_get m x)"
  by (simp add: map_get_def map_of_map_at)

lemma map_get_not_key: "k \<notin> keys m \<Longrightarrow> map_get m k = []"
  by (simp add: map_get_def map_of_None_keys[symmetric])

lemma length_wf_map: "wf_map m \<Longrightarrow> length m = card (keys m)"
  using wf_map_distinct[of m] distinct_card[of "map fst m"] by (simp add: keys_def)

lemma set_set_difference: "set (set_difference xs ys) \<subseteq> set xs"
  by (induction xs ys rule: set_difference.induct) auto

lemma set_difference_sorted:
  "sorted_wrt (<) xs \<Longrightarrow> sorted_wrt (<) ys \<Longrightarrow> set_difference xs ys = filter (\<lambda>x. x \<notin> set ys) xs"
proof (induction xs ys rule: set_difference.induct)
  case (1 ys) then show ?case by simp
next
  case (2 x xs) then show ?case by simp
next
  case (3 x xs y ys)
  show ?case
  proof (cases "x < y")
    case True
    then have "x \<notin> set (y # ys)" using 3(5) by auto
    then show ?thesis using True 3 by simp
  next
    case False
    show ?thesis
    proof (cases "y < x")
      case True
      have "y \<notin> set (x # xs)" using True 3(4) by auto
      then have "filter (\<lambda>x. x \<notin> set (y # ys)) (x # xs) = filter (\<lambda>x. x \<notin> set ys) (x # xs)"
        by (intro filter_cong) auto
      then show ?thesis using True False 3 by simp
    next
      case F2: False
      then have xy: "x = y" using False by simp
      have "y \<notin> set xs" using 3(4) xy by auto
      then have "filter (\<lambda>x. x \<notin> set (y # ys)) xs = filter (\<lambda>x. x \<notin> set ys) xs"
        by (intro filter_cong) auto
      then show ?thesis using xy 3 by simp
    qed
  qed
qed


lemma distinct_set_difference: "distinct xs \<Longrightarrow> distinct (set_difference xs ys)"
proof (induction xs ys rule: set_difference.induct)
  case (3 x xs y ys)
  then show ?case using set_set_difference[of xs "y # ys"] by auto
qed auto

text \<open>
  What the sampling loop computes for one list of uncovered points: the samples in the
  order they are drawn, each with the points it covers.
\<close>

function net :: "(int \<Rightarrow> int \<Rightarrow> real) \<Rightarrow> real \<Rightarrow> int list \<Rightarrow> (int \<times> int list) list" where
  "net d R [] = []"
| "net d R (s # rest) =
     (s, filter (\<lambda>j. d s j \<le> R) (filter (\<lambda>j. j > s) (s # rest)))
     # net d R (set_difference rest (filter (\<lambda>j. d s j \<le> R) (filter (\<lambda>j. j > s) (s # rest))))"
  by pat_completeness auto
termination
  by (relation "measure (\<lambda>(d, R, pts). length pts)")
     (auto simp: length_set_difference less_Suc_eq_le)

lemma add_covered_spec:
  assumes "wf_map cp"
  shows "wf_map (add_covered s up (map (d s) up) R cp)
       \<and> keys (add_covered s up (map (d s) up) R cp) \<subseteq> insert s (keys cp)
       \<and> keys cp \<subseteq> keys (add_covered s up (map (d s) up) R cp)
       \<and> (\<forall>x. x \<noteq> s \<longrightarrow> map_of (add_covered s up (map (d s) up) R cp) x = map_of cp x)
       \<and> map_get (add_covered s up (map (d s) up) R cp) s
           = map_get cp s @ filter (\<lambda>j. d s j \<le> R) up"
  using assms
proof (induction up arbitrary: cp)
  case Nil
  then show ?case by (auto simp: add_covered_def)
next
  case (Cons j up)
  let ?cp1 = "if d s j \<le> R
             then (if map_of cp s = None then map_insert s [j] cp
                   else map_at s (\<lambda>v. v @ [j]) cp)
             else cp"
  have unfold: "add_covered s (j # up) (map (d s) (j # up)) R cp
              = add_covered s up (map (d s) up) R ?cp1"
    by (simp add: add_covered_def)
  have wf1: "wf_map ?cp1" using Cons.prems by simp
  have k1: "keys ?cp1 \<subseteq> insert s (keys cp)" "keys cp \<subseteq> keys ?cp1" by auto
  have o1: "\<forall>x. x \<noteq> s \<longrightarrow> map_of ?cp1 x = map_of cp x"
    using Cons.prems by (auto simp: map_of_map_insert map_of_map_at)
  have g1: "map_get ?cp1 s = map_get cp s @ (if d s j \<le> R then [j] else [])"
    using Cons.prems
    by (auto simp: map_get_map_insert map_get_map_at map_of_None_keys map_get_not_key)
  from Cons.IH[OF wf1] show ?case
    unfolding unfold using k1 o1 g1 by auto
qed

lemma net_Cons:
  "net d R (s # rest) =
     (s, filter (\<lambda>j. d s j \<le> R) (filter (\<lambda>j. j > s) (s # rest)))
     # net d R (set_difference rest (filter (\<lambda>j. d s j \<le> R) (filter (\<lambda>j. j > s) (s # rest))))"
  by simp

declare net.simps(2) [simp del]

lemma net_fst_subset: "set (map fst (net d R xs)) \<subseteq> set xs"
proof (induction "length xs" arbitrary: xs rule: less_induct)
  case less
  show ?case
  proof (cases xs)
    case Nil then show ?thesis by simp
  next
    case (Cons y ys)
    define c where "c = filter (\<lambda>j. d y j \<le> R) (filter (\<lambda>j. j > y) (y # ys))"
    have "length (set_difference ys c) < length xs"
      using length_set_difference[of ys c] Cons by simp
    from less[OF this] set_set_difference[of ys c] show ?thesis
      unfolding Cons net_Cons c_def[symmetric] by auto
  qed
qed

lemma sample_loop_Cons:
  fixes d :: "int \<Rightarrow> int \<Rightarrow> real" and R :: real and rest :: "int list" and s :: int
  assumes "wf_map cp" "s \<notin> keys cp"
  defines "cov \<equiv> filter (\<lambda>j. d s j \<le> R) (filter (\<lambda>j. j > s) (s # rest))"
  shows "\<exists>cp2. sample_loop d R start key (s # rest) (ct, cp)
            = sample_loop d R start key (set_difference rest cov)
                (map_at (key + start) (\<lambda>v. v @ [s + start]) ct, cp2)
          \<and> wf_map cp2 \<and> keys cp2 = insert s (keys cp) \<and> map_of cp2 = (map_of cp)(s \<mapsto> cov)"
proof -
  define up where "up = filter (\<lambda>j. j > s) (s # rest)"
  define cp1 where "cp1 = add_covered s up (map (d s) up) R cp"
  define cp2 where "cp2 = map_at s (\<lambda>v. v) cp1"
  have cov: "cov = filter (\<lambda>j. d s j \<le> R) up" by (simp add: cov_def up_def)
  note ac = add_covered_spec[OF assms(1), of s up d R, folded cp1_def]
  have wf2: "wf_map cp2" using ac by (simp add: cp2_def)
  have g2: "map_get cp2 s = cov"
    using ac assms(2) by (simp add: cp2_def map_get_map_at map_get_not_key cov)
  have k2: "keys cp2 = insert s (keys cp)" using ac by (auto simp: cp2_def)
  have m2: "map_of cp2 = (map_of cp)(s \<mapsto> cov)"
  proof
    fix x show "map_of cp2 x = ((map_of cp)(s \<mapsto> cov)) x"
      using ac assms(2) by (auto simp: cp2_def map_of_map_at map_get_not_key cov)
  qed
  have "sample_loop d R start key (s # rest) (ct, cp)
       = sample_loop d R start key (set_difference rest (map_get cp2 s))
                (map_at (key + start) (\<lambda>v. v @ [s + start]) ct, cp2)"
    by (simp add: Let_def cp2_def cp1_def up_def del: filter.simps)
  then show ?thesis using wf2 k2 m2 g2 by auto
qed

lemma sample_loop_spec:
  assumes "wf_map ct" "wf_map cp" "distinct pts" "set pts \<inter> keys cp = {}"
    and "key + start \<in> keys ct"
  shows "wf_map (fst (sample_loop d R start key pts (ct, cp)))
       \<and> wf_map (snd (sample_loop d R start key pts (ct, cp)))
       \<and> map_of (fst (sample_loop d R start key pts (ct, cp)))
           = (map_of ct)(key + start \<mapsto>
                map_get ct (key + start) @ map (\<lambda>s. s + start) (map fst (net d R pts)))
       \<and> keys (fst (sample_loop d R start key pts (ct, cp))) = keys ct
       \<and> map_of (snd (sample_loop d R start key pts (ct, cp)))
           = map_of cp ++ map_of (net d R pts)
       \<and> keys (snd (sample_loop d R start key pts (ct, cp)))
           = keys cp \<union> set (map fst (net d R pts))"
  using assms
proof (induction "length pts" arbitrary: pts ct cp rule: less_induct)
  case less
  show ?case
  proof (cases pts)
    case Nil
    then show ?thesis using less.prems
      by (auto simp: map_get_def map_of_None_keys split: option.splits)
  next
    case (Cons s rest)
    define cov where "cov = filter (\<lambda>j. d s j \<le> R) (filter (\<lambda>j. j > s) (s # rest))"
    define rest' where "rest' = set_difference rest cov"
    define ct1 where "ct1 = map_at (key + start) (\<lambda>v. v @ [s + start]) ct"
    have snk: "s \<notin> keys cp" using less.prems(4) Cons by auto
    from sample_loop_Cons[OF less.prems(2) snk, where d=d and R=R and rest=rest and start=start and key=key and ct=ct]
    obtain cp2 where step: "sample_loop d R start key pts (ct, cp)
              = sample_loop d R start key rest' (ct1, cp2)"
      and wf2: "wf_map cp2" and k2: "keys cp2 = insert s (keys cp)"
      and m2: "map_of cp2 = (map_of cp)(s \<mapsto> cov)"
      unfolding Cons cov_def rest'_def ct1_def by blast
    have d': "distinct rest'"
      using less.prems(3) Cons by (simp add: distinct_set_difference rest'_def)
    have sub: "set rest' \<subseteq> set rest" unfolding rest'_def by (rule set_set_difference)
    have disj': "set rest' \<inter> keys cp2 = {}"
      using sub less.prems(3,4) k2 Cons by auto
    have key1: "key + start \<in> keys ct1" by (simp add: ct1_def)
    have wf1: "wf_map ct1" using less.prems(1) by (simp add: ct1_def)
    have len: "length rest' < length pts"
      using length_set_difference[of rest cov] Cons by (simp add: rest'_def)
    note IH = less.hyps[OF len wf1 wf2 d' disj' key1]
    have netc: "net d R pts = (s, cov) # net d R rest'"
      unfolding Cons net_Cons cov_def rest'_def by simp
    have nin: "s \<notin> set (map fst (net d R rest'))"
      using net_fst_subset[of d R rest'] sub less.prems(3) Cons by auto
    have g1: "map_get ct1 (key + start) = map_get ct (key + start) @ [s + start]"
      using less.prems(1) by (simp add: ct1_def map_get_map_at)
    have m1: "map_of ct1 = (map_of ct)(key + start \<mapsto> map_get ct (key + start) @ [s + start])"
      using less.prems(1) by (simp add: ct1_def map_of_map_at)
    have ct_eq: "map_of (fst (sample_loop d R start key pts (ct, cp)))
           = (map_of ct)(key + start \<mapsto>
                map_get ct (key + start) @ map (\<lambda>s. s + start) (map fst (net d R pts)))"
      using IH unfolding step netc g1 m1 by simp
    have "map_of (net d R rest') s = None"
      using nin by (simp add: map_of_eq_None_iff)
    then have cp_eq: "map_of (snd (sample_loop d R start key pts (ct, cp)))
           = map_of cp ++ map_of (net d R pts)"
      using IH unfolding step netc m2
      by (auto simp: fun_eq_iff map_add_def split: option.splits)
    have k1: "keys ct1 = keys ct" using less.prems(5) by (auto simp: ct1_def)
    show ?thesis
      using IH ct_eq cp_eq k2 k1 unfolding step netc by auto
  qed
qed


lemma net_fst_distinct: "distinct xs \<Longrightarrow> distinct (map fst (net d R xs))"
proof (induction "length xs" arbitrary: xs rule: less_induct)
  case less
  show ?case
  proof (cases xs)
    case Nil then show ?thesis by simp
  next
    case (Cons y ys)
    define c where "c = filter (\<lambda>j. d y j \<le> R) (filter (\<lambda>j. j > y) (y # ys))"
    have len: "length (set_difference ys c) < length xs"
      using length_set_difference[of ys c] Cons by simp
    have dis: "distinct (set_difference ys c)"
      using less.prems Cons by (simp add: distinct_set_difference)
    have "y \<notin> set (map fst (net d R (set_difference ys c)))"
      using net_fst_subset[of d R "set_difference ys c"] set_set_difference[of ys c]
        less.prems Cons by auto
    with less.hyps[OF len dis] show ?thesis
      unfolding Cons net_Cons c_def[symmetric] by simp
  qed
qed

lemma net_props:
  assumes "sorted_wrt (<) pts"
  shows "sorted_wrt (<) (map fst (net d R pts))
       \<and> (\<forall>(s, cov) \<in> set (net d R pts).
             sorted_wrt (<) cov \<and> set cov \<subseteq> set pts \<and> (\<forall>x \<in> set cov. s < x \<and> d s x \<le> R))
       \<and> set (map fst (net d R pts)) \<union> (\<Union>(s, cov) \<in> set (net d R pts). set cov) = set pts
       \<and> set (map fst (net d R pts)) \<inter> (\<Union>(s, cov) \<in> set (net d R pts). set cov) = {}
       \<and> (\<forall>(s, c) \<in> set (net d R pts). \<forall>(s', c') \<in> set (net d R pts).
             s \<noteq> s' \<longrightarrow> set c \<inter> set c' = {})"
  using assms
proof (induction "length pts" arbitrary: pts rule: less_induct)
  case less
  show ?case
  proof (cases pts)
    case Nil then show ?thesis by simp
  next
    case (Cons y ys)
    define c where "c = filter (\<lambda>j. d y j \<le> R) (filter (\<lambda>j. j > y) (y # ys))"
    define r where "r = set_difference ys c"
    define N where "N = net d R r"
    have ys: "sorted_wrt (<) ys" "\<forall>x \<in> set ys. y < x" using less.prems Cons by auto
    have c_eq: "c = filter (\<lambda>j. d y j \<le> R) ys"
      unfolding c_def using ys(2) by (auto intro: filter_cong simp: filter_id_conv)
    have sc: "sorted_wrt (<) c" unfolding c_eq using ys(1) by (rule sorted_wrt_filter)
    have r_eq: "r = filter (\<lambda>x. x \<notin> set c) ys"
      unfolding r_def by (rule set_difference_sorted[OF ys(1) sc])
    have sr: "sorted_wrt (<) r" unfolding r_eq using ys(1) by (rule sorted_wrt_filter)
    have set_r: "set r = set ys - set c" unfolding r_eq by auto
    have set_c: "set c \<subseteq> set ys" unfolding c_eq by auto
    have c_prop: "\<forall>x \<in> set c. y < x \<and> d y x \<le> R" using ys(2) unfolding c_eq by auto
    have len: "length r < length pts"
      using length_set_difference[of ys c] Cons by (simp add: r_def)
    note IH = less.hyps[OF len sr, folded N_def]
    note IH1 = IH[THEN conjunct1]
    note IH2 = IH[THEN conjunct2, THEN conjunct1]
    note IH3 = IH[THEN conjunct2, THEN conjunct2, THEN conjunct1]
    note IH4 = IH[THEN conjunct2, THEN conjunct2, THEN conjunct2, THEN conjunct1]
    note IH5 = IH[THEN conjunct2, THEN conjunct2, THEN conjunct2, THEN conjunct2]
    have netc: "net d R pts = (y, c) # N"
      unfolding Cons net_Cons c_def r_def N_def by simp
    have sub: "set (map fst N) \<subseteq> set r" unfolding N_def by (rule net_fst_subset)
    have cov_sub: "set cov \<subseteq> set r" if "(s, cov) \<in> set N" for s cov
      using IH2 that by auto
    have spts: "set pts = insert y (set ys)" using Cons by simp
    have P1: "sorted_wrt (<) (map fst ((y, c) # N))"
    proof -
      have "\<forall>x \<in> set (map fst N). y < x" using sub set_r ys(2) by auto
      then show ?thesis using IH1 by simp
    qed
    have P2: "\<forall>(s, cov) \<in> set ((y, c) # N).
             sorted_wrt (<) cov \<and> set cov \<subseteq> set pts \<and> (\<forall>x \<in> set cov. s < x \<and> d s x \<le> R)"
    proof (intro ballI, clarify)
      fix s cov assume m: "(s, cov) \<in> set ((y, c) # N)"
      show "sorted_wrt (<) cov \<and> set cov \<subseteq> set pts \<and> (\<forall>x \<in> set cov. s < x \<and> d s x \<le> R)"
      proof (cases "(s, cov) = (y, c)")
        case True
        then show ?thesis using sc set_c c_prop spts by auto
      next
        case False
        then have inN: "(s, cov) \<in> set N" using m by auto
        then have "sorted_wrt (<) cov \<and> set cov \<subseteq> set r \<and> (\<forall>x \<in> set cov. s < x \<and> d s x \<le> R)"
          using IH2 by auto
        then show ?thesis using set_r spts by auto
      qed
    qed
    have U: "(\<Union>(s, cov) \<in> set ((y, c) # N). set cov) = set c \<union> (\<Union>(s, cov) \<in> set N. set cov)"
      by simp
    have P3: "set (map fst ((y, c) # N)) \<union> (\<Union>(s, cov) \<in> set ((y, c) # N). set cov) = set pts"
    proof -
      have "set (map fst N) \<union> (\<Union>(s, cov) \<in> set N. set cov) = set ys - set c"
        using IH3 set_r by simp
      then have "insert y (set (map fst N)) \<union> (set c \<union> (\<Union>(s, cov) \<in> set N. set cov))
                 = insert y (set ys)"
        using set_c by blast
      then show ?thesis unfolding U spts by simp
    qed
    have covs_r: "(\<Union>(s, cov) \<in> set N. set cov) \<subseteq> set r"
      using cov_sub by auto
    have P4: "set (map fst ((y, c) # N)) \<inter> (\<Union>(s, cov) \<in> set ((y, c) # N). set cov) = {}"
    proof -
      have b: "y \<notin> set c" using c_prop by auto
      have c': "y \<notin> (\<Union>(s, cov) \<in> set N. set cov)"
        using covs_r set_r ys(2) by auto
      have d': "set (map fst N) \<inter> set c = {}" using sub set_r by auto
      have "insert y (set (map fst N)) \<inter> (set c \<union> (\<Union>(s, cov) \<in> set N. set cov)) = {}"
        using IH4 b c' d' by blast
      then show ?thesis unfolding U by simp
    qed
    have P5: "\<forall>(s, c1) \<in> set ((y, c) # N). \<forall>(s', c') \<in> set ((y, c) # N).
             s \<noteq> s' \<longrightarrow> set c1 \<inter> set c' = {}"
    proof (intro ballI, clarify)
      fix s c1 s' c'
      assume m: "(s, c1) \<in> set ((y, c) # N)" "(s', c') \<in> set ((y, c) # N)" "s \<noteq> s'"
      have dis: "set cov \<inter> set c = {}" if "(t, cov) \<in> set N" for t cov
        using cov_sub[OF that] set_r by auto
      show "set c1 \<inter> set c' = {}"
      proof (cases "(s, c1) = (y, c)")
        case True
        then have "(s', c') \<in> set N" using m by auto
        then show ?thesis using dis True by auto
      next
        case False
        then have i1: "(s, c1) \<in> set N" using m by auto
        show ?thesis
        proof (cases "(s', c') = (y, c)")
          case True
          then show ?thesis using dis[OF i1] by auto
        next
          case F2: False
          then have i2: "(s', c') \<in> set N" using m by auto
          show ?thesis using IH5 i1 i2 m(3) by fast
        qed
      qed
    qed
    show ?thesis unfolding netc using P1 P2 P3 P4 P5 by (intro conjI)
  qed
qed

text \<open>The loop over the keys of \<open>covert_points_old\<close> within one pass.\<close>

definition pass_fold ::
  "(int \<Rightarrow> int \<Rightarrow> real) \<Rightarrow> real \<Rightarrow> int \<Rightarrow> int_map \<Rightarrow> int_map \<times> int_map \<Rightarrow> int_map \<times> int_map" where
  "pass_fold d R start es acc =
     fold (\<lambda>(key, pts) (ct, cp).
             sample_loop d R start key pts (map_insert (key + start) [key + start] ct, cp))
          es acc"

lemma pass_fold_Nil [simp]: "pass_fold d R start [] acc = acc"
  by (simp add: pass_fold_def)

lemma pass_fold_Cons:
  "pass_fold d R start ((key, pts) # es) (ct, cp) =
     pass_fold d R start es
       (sample_loop d R start key pts (map_insert (key + start) [key + start] ct, cp))"
  by (simp add: pass_fold_def)

lemma pass_fold_spec:
  assumes "wf_map ct" "wf_map cp" "distinct (map fst es)"
    and "\<forall>(key, pts) \<in> set es. distinct pts \<and> set pts \<inter> keys cp = {}"
    and "\<forall>(k1, p1) \<in> set es. \<forall>(k2, p2) \<in> set es. k1 \<noteq> k2 \<longrightarrow> set p1 \<inter> set p2 = {}"
  shows "wf_map (fst (pass_fold d R start es (ct, cp)))
       \<and> wf_map (snd (pass_fold d R start es (ct, cp)))
       \<and> keys (fst (pass_fold d R start es (ct, cp))) = keys ct \<union> (\<lambda>k. k + start) ` set (map fst es)
       \<and> (\<forall>x. x - start \<notin> set (map fst es) \<longrightarrow>
             map_of (fst (pass_fold d R start es (ct, cp))) x = map_of ct x)
       \<and> (\<forall>(key, pts) \<in> set es.
             map_get (fst (pass_fold d R start es (ct, cp))) (key + start)
               = (if key + start \<in> keys ct then map_get ct (key + start) else [key + start])
                 @ map (\<lambda>s. s + start) (map fst (net d R pts)))
       \<and> keys (snd (pass_fold d R start es (ct, cp)))
            = keys cp \<union> (\<Union>(key, pts) \<in> set es. set (map fst (net d R pts)))
       \<and> (\<forall>s \<in> keys cp. map_of (snd (pass_fold d R start es (ct, cp))) s = map_of cp s)
       \<and> (\<forall>(key, pts) \<in> set es. \<forall>(s, cov) \<in> set (net d R pts).
             map_of (snd (pass_fold d R start es (ct, cp))) s = Some cov)"
  using assms
proof (induction es arbitrary: ct cp)
  case Nil
  then show ?case by simp
next
  case (Cons e es)
  obtain key pts where e: "e = (key, pts)" by (cases e)
  define ct1 where "ct1 = map_insert (key + start) [key + start] ct"
  define ct2 where "ct2 = fst (sample_loop d R start key pts (ct1, cp))"
  define cp2 where "cp2 = snd (sample_loop d R start key pts (ct1, cp))"
  have wf1: "wf_map ct1" using Cons.prems(1) by (simp add: ct1_def)
  have dpts: "distinct pts" using Cons.prems(4) e by simp
  have disj: "set pts \<inter> keys cp = {}" using Cons.prems(4) e by auto
  have k1: "key + start \<in> keys ct1" by (simp add: ct1_def)
  note sl = sample_loop_spec[OF wf1 Cons.prems(2) dpts disj k1, of d R, folded ct2_def cp2_def]
  have step: "pass_fold d R start (e # es) (ct, cp) = pass_fold d R start es (ct2, cp2)"
    unfolding e pass_fold_Cons ct1_def[symmetric] ct2_def cp2_def by simp
  have wf2: "wf_map ct2" "wf_map cp2" using sl by auto
  have des: "distinct (map fst es)" using Cons.prems(3) by simp
  have key_notin: "key \<notin> set (map fst es)" using Cons.prems(3) e by simp
  have kcp2: "keys cp2 = keys cp \<union> set (map fst (net d R pts))" using sl by simp
  have disj2: "\<forall>(key', pts') \<in> set es. distinct pts' \<and> set pts' \<inter> keys cp2 = {}"
  proof (intro ballI, clarify)
    fix key' pts' assume in_es: "(key', pts') \<in> set es"
    then have ne: "key' \<noteq> key" using key_notin by force
    have "set pts \<inter> set pts' = {}" using Cons.prems(5) in_es ne e by fastforce
    moreover have "distinct pts' \<and> set pts' \<inter> keys cp = {}" using Cons.prems(4) in_es by auto
    ultimately show "distinct pts' \<and> set pts' \<inter> keys cp2 = {}"
      using net_fst_subset[of d R pts] unfolding kcp2 by auto
  qed
  have pd2: "\<forall>(k1, p1) \<in> set es. \<forall>(k2, p2) \<in> set es. k1 \<noteq> k2 \<longrightarrow> set p1 \<inter> set p2 = {}"
  proof (intro ballI, clarify)
    fix k1 p1 k2 p2 assume "(k1, p1) \<in> set es" "(k2, p2) \<in> set es" "k1 \<noteq> k2"
    then show "set p1 \<inter> set p2 = {}" using Cons.prems(5) by fastforce
  qed
  note IH = Cons.IH[OF wf2 des disj2 pd2]
  have g1: "map_get ct1 (key + start) = (if key + start \<in> keys ct then map_get ct (key + start) else [key + start])"
    using Cons.prems(1) by (simp add: ct1_def map_get_map_insert)
  have m2: "map_of ct2 = (map_of ct1)(key + start \<mapsto>
                map_get ct1 (key + start) @ map (\<lambda>s. s + start) (map fst (net d R pts)))"
    using sl by simp
  have m1: "x \<noteq> key + start \<Longrightarrow> map_of ct1 x = map_of ct x" for x
    using Cons.prems(1) by (simp add: ct1_def map_of_map_insert)
  have kct2: "keys ct2 = insert (key + start) (keys ct)" using sl by (simp add: ct1_def)
  have A: "keys (fst (pass_fold d R start (e # es) (ct, cp))) = keys ct \<union> (\<lambda>k. k + start) ` set (map fst (e # es))"
    unfolding step using IH kct2 e by auto
  have B: "\<forall>x. x - start \<notin> set (map fst (e # es)) \<longrightarrow>
             map_of (fst (pass_fold d R start (e # es) (ct, cp))) x = map_of ct x"
  proof (intro allI impI)
    fix x assume x: "x - start \<notin> set (map fst (e # es))"
    then have "x \<noteq> key + start" using e by auto
    then have "map_of ct2 x = map_of ct x" using m2 m1 by simp
    moreover have "map_of (fst (pass_fold d R start es (ct2, cp2))) x = map_of ct2 x"
      using IH x by simp
    ultimately show "map_of (fst (pass_fold d R start (e # es) (ct, cp))) x = map_of ct x"
      unfolding step by simp
  qed
  have C1: "map_get (fst (pass_fold d R start (e # es) (ct, cp))) (key + start)
               = (if key + start \<in> keys ct then map_get ct (key + start) else [key + start])
                 @ map (\<lambda>s. s + start) (map fst (net d R pts))"
  proof -
    have "(key + start) - start \<notin> set (map fst es)" using key_notin by simp
    then have "map_of (fst (pass_fold d R start es (ct2, cp2))) (key + start) = map_of ct2 (key + start)"
      using IH by blast
    then show ?thesis unfolding step using m2 g1 by (simp add: map_get_def)
  qed
  have C2: "map_get (fst (pass_fold d R start (e # es) (ct, cp))) (key' + start)
               = (if key' + start \<in> keys ct then map_get ct (key' + start) else [key' + start])
                 @ map (\<lambda>s. s + start) (map fst (net d R pts'))"
    if "(key', pts') \<in> set es" for key' pts'
  proof -
    have ne: "key' \<noteq> key" using that key_notin by force
    have "map_get (fst (pass_fold d R start es (ct2, cp2))) (key' + start)
               = (if key' + start \<in> keys ct2 then map_get ct2 (key' + start) else [key' + start])
                 @ map (\<lambda>s. s + start) (map fst (net d R pts'))"
      using IH that by blast
    moreover have "map_get ct2 (key' + start) = map_get ct (key' + start)"
      using ne m2 m1[of "key' + start"] by (simp add: map_get_def)
    moreover have "key' + start \<in> keys ct2 \<longleftrightarrow> key' + start \<in> keys ct"
      using ne kct2 by simp
    ultimately show ?thesis unfolding step by simp
  qed
  have C: "\<forall>(key, pts) \<in> set (e # es).
             map_get (fst (pass_fold d R start (e # es) (ct, cp))) (key + start)
               = (if key + start \<in> keys ct then map_get ct (key + start) else [key + start])
                 @ map (\<lambda>s. s + start) (map fst (net d R pts))"
    using C1 C2 e by auto
  have D: "keys (snd (pass_fold d R start (e # es) (ct, cp)))
            = keys cp \<union> (\<Union>(key, pts) \<in> set (e # es). set (map fst (net d R pts)))"
    unfolding step using IH kcp2 e by auto
  have mcp2: "map_of cp2 = map_of cp ++ map_of (net d R pts)" using sl by simp
  have E: "\<forall>s \<in> keys cp. map_of (snd (pass_fold d R start (e # es) (ct, cp))) s = map_of cp s"
  proof
    fix s assume s: "s \<in> keys cp"
    then have "s \<notin> set pts" using disj by auto
    then have "s \<notin> set (map fst (net d R pts))" using net_fst_subset[of d R pts] by auto
    then have "map_of (net d R pts) s = None" by (simp add: map_of_eq_None_iff)
    then have "map_of cp2 s = map_of cp s" unfolding mcp2 by (simp add: map_add_def)
    moreover have "s \<in> keys cp2" using s kcp2 by simp
    ultimately show "map_of (snd (pass_fold d R start (e # es) (ct, cp))) s = map_of cp s"
      unfolding step using IH by simp
  qed
  note dnet = net_fst_distinct
  have F1: "map_of (snd (pass_fold d R start (e # es) (ct, cp))) s = Some cov"
    if "(s, cov) \<in> set (net d R pts)" for s cov
  proof -
    have "map_of (net d R pts) s = Some cov"
      using that dnet[OF dpts] by simp
    then have "map_of cp2 s = Some cov" unfolding mcp2 by (simp add: map_add_def)
    moreover have "s \<in> keys cp2" using that kcp2 by force
    ultimately show ?thesis unfolding step using IH by simp
  qed
  have F: "\<forall>(key, pts) \<in> set (e # es). \<forall>(s, cov) \<in> set (net d R pts).
             map_of (snd (pass_fold d R start (e # es) (ct, cp))) s = Some cov"
    using F1 IH e unfolding step by auto
  show ?case
    using IH A B C D E F unfolding step by blast
qed

lemma net_samples_sorted: "sorted_wrt (<) pts \<Longrightarrow> sorted_wrt (<) (map fst (net d R pts))"
  using net_props[of pts d R] by (rule conjunct1)

lemma net_cover:
  assumes "sorted_wrt (<) pts" "(s, cov) \<in> set (net d R pts)"
  shows "sorted_wrt (<) cov \<and> set cov \<subseteq> set pts \<and> (\<forall>x \<in> set cov. s < x \<and> d s x \<le> R)"
proof -
  have "\<forall>(s, cov) \<in> set (net d R pts).
          sorted_wrt (<) cov \<and> set cov \<subseteq> set pts \<and> (\<forall>x \<in> set cov. s < x \<and> d s x \<le> R)"
    using net_props[OF assms(1), of d R] by (rule conjunct2[THEN conjunct1])
  with assms(2) show ?thesis by fast
qed

lemma net_union:
  "sorted_wrt (<) pts \<Longrightarrow>
   set (map fst (net d R pts)) \<union> (\<Union>(s, cov) \<in> set (net d R pts). set cov) = set pts"
  using net_props[of pts d R] by (rule conjunct2[THEN conjunct2, THEN conjunct1])

lemma net_samples_not_covered:
  "sorted_wrt (<) pts \<Longrightarrow>
   set (map fst (net d R pts)) \<inter> (\<Union>(s, cov) \<in> set (net d R pts). set cov) = {}"
  using net_props[of pts d R] by (rule conjunct2[THEN conjunct2, THEN conjunct2, THEN conjunct1])

lemma net_covers_disjoint:
  assumes "sorted_wrt (<) pts" "(s, c) \<in> set (net d R pts)" "(s', c') \<in> set (net d R pts)"
    and "s \<noteq> s'"
  shows "set c \<inter> set c' = {}"
proof -
  have "\<forall>(s, c) \<in> set (net d R pts). \<forall>(s', c') \<in> set (net d R pts).
             s \<noteq> s' \<longrightarrow> set c \<inter> set c' = {}"
    using net_props[OF assms(1), of d R]
    by (rule conjunct2[THEN conjunct2, THEN conjunct2, THEN conjunct2])
  with assms(2-4) show ?thesis by fast
qed

lemma wf_map_entry: "wf_map m \<Longrightarrow> (k, v) \<in> set m \<Longrightarrow> map_get m k = v \<and> k \<in> keys m"
  using wf_map_distinct[of m] by (force simp: map_get_def keys_def)

lemma wf_map_key_entry: "k \<in> keys m \<Longrightarrow> wf_map m \<Longrightarrow> (k, map_get m k) \<in> set m"
proof -
  assume k: "k \<in> keys m" and wf: "wf_map m"
  then obtain v where v: "(k, v) \<in> set m" by (auto simp: keys_def)
  with wf_map_entry[OF wf v] show ?thesis by simp
qed

text \<open>
  The invariant of the outer loop.  The local points \<open>0, \<dots>, n - 1\<close> are split into the
  points that are keys of the tree, the keys of \<open>covert_points_old\<close>, and the points of
  its lists; the lists increase strictly and are pairwise disjoint.
\<close>

definition pending :: "int_map \<Rightarrow> int set" where
  "pending cp = (\<Union>b \<in> keys cp. set (map_get cp b))"

definition tree_nodes :: "int \<Rightarrow> int_map \<Rightarrow> int set" where
  "tree_nodes start ct = (\<lambda>k. k - start) ` (keys ct - {- 1})"

definition build_inv :: "int \<Rightarrow> int \<Rightarrow> build_state \<Rightarrow> bool" where
  "build_inv start n st \<longleftrightarrow>
     wf_map (cover_tree st) \<and> wf_map (covert_points_old st) \<and> - 1 \<in> keys (cover_tree st)
     \<and> tree_nodes start (cover_tree st) \<union> keys (covert_points_old st)
          \<union> pending (covert_points_old st) = {0..<n}
     \<and> tree_nodes start (cover_tree st) \<inter> keys (covert_points_old st) = {}
     \<and> (tree_nodes start (cover_tree st) \<union> keys (covert_points_old st))
          \<inter> pending (covert_points_old st) = {}
     \<and> (\<forall>b \<in> keys (covert_points_old st). sorted_wrt (<) (map_get (covert_points_old st) b))
     \<and> (\<forall>b \<in> keys (covert_points_old st). \<forall>b' \<in> keys (covert_points_old st).
           b \<noteq> b' \<longrightarrow> set (map_get (covert_points_old st) b)
                        \<inter> set (map_get (covert_points_old st) b') = {})"

definition pass_radius :: "real \<Rightarrow> build_state \<Rightarrow> real" where
  "pass_radius base st = 1 / base ^ nat (level st + 1)"

lemma level_pass_pass_fold:
  "level_pass d base start st =
     \<lparr> cover_tree = fst (pass_fold d (pass_radius base st) start (covert_points_old st) (cover_tree st, [])),
       level = level st + 1,
       covert_points_old = snd (pass_fold d (pass_radius base st) start (covert_points_old st) (cover_tree st, [])) \<rparr>"
  by (simp add: level_pass_def pass_fold_def pass_radius_def Let_def split: prod.splits)

lemma level_pass_abstract:
  fixes base :: real and d :: "int \<Rightarrow> int \<Rightarrow> real"
  assumes inv: "build_inv start n st" and start: "0 \<le> start"
  defines "R \<equiv> pass_radius base st"
  defines "st' \<equiv> level_pass d base start st"
  defines "cp \<equiv> covert_points_old st"
  shows "wf_map (cover_tree st')" and "wf_map (covert_points_old st')"
    and "keys (cover_tree st') = keys (cover_tree st) \<union> (\<lambda>k. k + start) ` keys cp"
    and "\<And>x. x - start \<notin> keys cp \<Longrightarrow> map_of (cover_tree st') x = map_of (cover_tree st) x"
    and "\<And>b. b \<in> keys cp \<Longrightarrow> map_get (cover_tree st') (b + start)
             = (b + start) # map (\<lambda>s. s + start) (map fst (net d R (map_get cp b)))"
    and "keys (covert_points_old st') = (\<Union>b \<in> keys cp. set (map fst (net d R (map_get cp b))))"
    and "\<And>b s cov. b \<in> keys cp \<Longrightarrow> (s, cov) \<in> set (net d R (map_get cp b))
             \<Longrightarrow> map_get (covert_points_old st') s = cov"
    and "level st' = level st + 1"
proof -
  have wfct: "wf_map (cover_tree st)" and wfcp: "wf_map cp"
    using inv by (auto simp: build_inv_def cp_def)
  have dk: "distinct (map fst cp)" using wfcp by (rule wf_map_distinct)
  have h4: "\<forall>(key, pts) \<in> set cp. distinct pts \<and> set pts \<inter> keys [] = {}"
  proof (intro ballI, clarify)
    fix key pts assume m: "(key, pts) \<in> set cp"
    from wf_map_entry[OF wfcp m] have "map_get cp key = pts" "key \<in> keys cp" by auto
    then have "sorted_wrt (<) pts" using inv by (auto simp: build_inv_def cp_def)
    then have "distinct pts" using strict_sorted_iff by auto
    then show "distinct pts \<and> set pts \<inter> keys [] = {}" by simp
  qed
  have h5: "\<forall>(k1, p1) \<in> set cp. \<forall>(k2, p2) \<in> set cp. k1 \<noteq> k2 \<longrightarrow> set p1 \<inter> set p2 = {}"
  proof (intro ballI, clarify)
    fix k1 p1 k2 p2 assume m: "(k1, p1) \<in> set cp" "(k2, p2) \<in> set cp" "k1 \<noteq> k2"
    from wf_map_entry[OF wfcp m(1)] wf_map_entry[OF wfcp m(2)] m(3)
    show "set p1 \<inter> set p2 = {}" using inv unfolding build_inv_def cp_def[symmetric] by blast
  qed
  note pf = pass_fold_spec[OF wfct wf_map_Nil dk h4 h5, of d R start]
  have ct': "cover_tree st' = fst (pass_fold d R start cp (cover_tree st, []))"
    and cp': "covert_points_old st' = snd (pass_fold d R start cp (cover_tree st, []))"
    and lv: "level st' = level st + 1"
    unfolding st'_def level_pass_pass_fold R_def cp_def by simp_all
  have fstcp: "set (map fst cp) = keys cp" by (simp add: keys_def)
  show "wf_map (cover_tree st')" "wf_map (covert_points_old st')" "level st' = level st + 1"
    using pf lv unfolding ct' cp' by simp_all
  show "keys (cover_tree st') = keys (cover_tree st) \<union> (\<lambda>k. k + start) ` keys cp"
    unfolding ct' using pf fstcp by simp
  show "map_of (cover_tree st') x = map_of (cover_tree st) x" if "x - start \<notin> keys cp" for x
    unfolding ct' using pf that fstcp by simp
  have Bsub: "keys cp \<subseteq> {0..<n}" and AB: "tree_nodes start (cover_tree st) \<inter> keys cp = {}"
    using inv unfolding build_inv_def cp_def by auto
  show "map_get (cover_tree st') (b + start)
             = (b + start) # map (\<lambda>s. s + start) (map fst (net d R (map_get cp b)))"
    if b: "b \<in> keys cp" for b
  proof -
    have "b + start \<noteq> - 1" using Bsub b start by auto
    moreover have "b \<notin> tree_nodes start (cover_tree st)" using AB b by auto
    ultimately have nk: "b + start \<notin> keys (cover_tree st)"
      unfolding tree_nodes_def by force
    have "(b, map_get cp b) \<in> set cp" using wf_map_key_entry[OF b wfcp] .
    with pf have "map_get (fst (pass_fold d R start cp (cover_tree st, []))) (b + start)
               = (if b + start \<in> keys (cover_tree st) then map_get (cover_tree st) (b + start) else [b + start])
                 @ map (\<lambda>s. s + start) (map fst (net d R (map_get cp b)))"
      by fast
    then show ?thesis unfolding ct' using nk by simp
  qed
  show "keys (covert_points_old st') = (\<Union>b \<in> keys cp. set (map fst (net d R (map_get cp b))))"
  proof -
    have "keys (covert_points_old st') = (\<Union>(key, pts) \<in> set cp. set (map fst (net d R pts)))"
      unfolding cp' using pf by simp
    also have "\<dots> = (\<Union>b \<in> keys cp. set (map fst (net d R (map_get cp b))))"
    proof (intro set_eqI iffI)
      fix x assume "x \<in> (\<Union>(key, pts) \<in> set cp. set (map fst (net d R pts)))"
      then obtain key pts where m: "(key, pts) \<in> set cp" and x: "x \<in> set (map fst (net d R pts))"
        by auto
      from wf_map_entry[OF wfcp m] x
      show "x \<in> (\<Union>b \<in> keys cp. set (map fst (net d R (map_get cp b))))" by auto
    next
      fix x assume "x \<in> (\<Union>b \<in> keys cp. set (map fst (net d R (map_get cp b))))"
      then obtain b where b: "b \<in> keys cp" and x: "x \<in> set (map fst (net d R (map_get cp b)))"
        by auto
      from wf_map_key_entry[OF b wfcp] x
      show "x \<in> (\<Union>(key, pts) \<in> set cp. set (map fst (net d R pts)))" by blast
    qed
    finally show ?thesis .
  qed
  show "map_get (covert_points_old st') s = cov"
    if b: "b \<in> keys cp" and sc: "(s, cov) \<in> set (net d R (map_get cp b))" for b s cov
  proof -
    have m: "(b, map_get cp b) \<in> set cp" using wf_map_key_entry[OF b wfcp] .
    have "\<forall>(key, pts) \<in> set cp. \<forall>(s, cov) \<in> set (net d R pts).
             map_of (snd (pass_fold d R start cp (cover_tree st, []))) s = Some cov"
      using pf by simp
    with m sc have "map_of (snd (pass_fold d R start cp (cover_tree st, []))) s = Some cov"
      by fast
    then show ?thesis unfolding cp' by (simp add: map_get_def)
  qed
qed


lemma level_pass_inv:
  fixes base :: real and d :: "int \<Rightarrow> int \<Rightarrow> real"
  assumes inv: "build_inv start n st" and start: "0 \<le> start"
  shows "build_inv start n (level_pass d base start st)"
    and "tree_nodes start (cover_tree (level_pass d base start st))
           = tree_nodes start (cover_tree st) \<union> keys (covert_points_old st)"
proof -
  define R where "R = pass_radius base st"
  define st' where "st' = level_pass d base start st"
  define cp where "cp = covert_points_old st"
  define A where "A = tree_nodes start (cover_tree st)"
  define B where "B = keys cp"
  define C where "C = pending cp"
  define N where "N = (\<lambda>b. net d R (map_get cp b))"
  note lp = level_pass_abstract[OF inv start, where base=base and d=d, folded R_def st'_def cp_def, folded N_def B_def]
  have I: "wf_map cp" "- 1 \<in> keys (cover_tree st)" "A \<union> B \<union> C = {0..<n}" "A \<inter> B = {}"
    "(A \<union> B) \<inter> C = {}" "\<And>b. b \<in> B \<Longrightarrow> sorted_wrt (<) (map_get cp b)"
    "\<And>b b'. b \<in> B \<Longrightarrow> b' \<in> B \<Longrightarrow> b \<noteq> b' \<Longrightarrow> set (map_get cp b) \<inter> set (map_get cp b') = {}"
    using inv unfolding build_inv_def A_def B_def C_def cp_def by auto
  have C_def': "C = (\<Union>b \<in> B. set (map_get cp b))" by (simp add: C_def pending_def B_def)
  have np1: "sorted_wrt (<) (map fst (N b))" if "b \<in> B" for b
    unfolding N_def by (rule net_samples_sorted[OF I(6)[OF that]])
  have np2: "sorted_wrt (<) cov \<and> set cov \<subseteq> set (map_get cp b) \<and> (\<forall>x \<in> set cov. s < x \<and> d s x \<le> R)"
    if "b \<in> B" "(s, cov) \<in> set (N b)" for b s cov
    using net_cover[OF I(6)[OF that(1)] that(2)[unfolded N_def]] .
  have np3: "set (map fst (N b)) \<union> (\<Union>(s, cov) \<in> set (N b). set cov) = set (map_get cp b)"
    if "b \<in> B" for b unfolding N_def by (rule net_union[OF I(6)[OF that]])
  have np4: "set (map fst (N b)) \<inter> (\<Union>(s, cov) \<in> set (N b). set cov) = {}"
    if "b \<in> B" for b unfolding N_def by (rule net_samples_not_covered[OF I(6)[OF that]])
  have np5: "set c \<inter> set c' = {}"
    if "b \<in> B" "(s, c) \<in> set (N b)" "(s', c') \<in> set (N b)" "s \<noteq> s'" for b s c s' c'
    using net_covers_disjoint[OF I(6)[OF that(1)] that(2,3)[unfolded N_def] that(4)] .
  define B' where "B' = keys (covert_points_old st')"
  have B'_eq: "B' = (\<Union>b \<in> B. set (map fst (N b)))" unfolding B'_def N_def using lp(6) .
  have sample_entry: "\<exists>b \<in> B. (s, map_get (covert_points_old st') s) \<in> set (N b)" if "s \<in> B'" for s
  proof -
    from that obtain b where b: "b \<in> B" and "s \<in> set (map fst (N b))" unfolding B'_eq by auto
    then obtain cov where sc: "(s, cov) \<in> set (N b)" by auto
    from lp(7)[OF b sc[unfolded N_def]] sc b show ?thesis by auto
  qed
  define C' where "C' = pending (covert_points_old st')"
  have C'_eq: "C' = (\<Union>b \<in> B. \<Union>(s, cov) \<in> set (N b). set cov)"
  proof (intro set_eqI iffI)
    fix x assume "x \<in> C'"
    then obtain s where s: "s \<in> B'" and x: "x \<in> set (map_get (covert_points_old st') s)"
      unfolding C'_def pending_def B'_def by auto
    from sample_entry[OF s] x show "x \<in> (\<Union>b \<in> B. \<Union>(s, cov) \<in> set (N b). set cov)" by blast
  next
    fix x assume "x \<in> (\<Union>b \<in> B. \<Union>(s, cov) \<in> set (N b). set cov)"
    then obtain b s cov where b: "b \<in> B" and sc: "(s, cov) \<in> set (N b)" and x: "x \<in> set cov" by auto
    have "s \<in> B'" unfolding B'_eq using b sc by force
    moreover have "map_get (covert_points_old st') s = cov" using lp(7)[OF b sc[unfolded N_def]] .
    ultimately show "x \<in> C'" unfolding C'_def pending_def B'_def using x by auto
  qed
  have BC': "B' \<union> C' = C"
  proof -
    have "B' \<union> C' = (\<Union>b \<in> B. set (map fst (N b)) \<union> (\<Union>(s, cov) \<in> set (N b). set cov))"
      unfolding B'_eq C'_eq by blast
    also have "\<dots> = (\<Union>b \<in> B. set (map_get cp b))" using np3 by simp
    finally show ?thesis unfolding C_def' .
  qed
  have Bsub: "B \<subseteq> {0..<n}" using I(3) by auto
  have neg: "- 1 \<notin> (\<lambda>k. k + start) ` B" using Bsub start by auto
  define A' where "A' = tree_nodes start (cover_tree st')"
  have A'_eq: "A' = A \<union> B"
  proof -
    have "keys (cover_tree st') - {- 1} = (keys (cover_tree st) - {- 1}) \<union> (\<lambda>k. k + start) ` B"
      using lp(3) neg by auto
    then have "A' = (\<lambda>k. k - start) ` (keys (cover_tree st) - {- 1}) \<union> (\<lambda>k. k - start) ` (\<lambda>k. k + start) ` B"
      unfolding A'_def tree_nodes_def by (simp add: image_Un)
    also have "(\<lambda>k. k - start) ` (\<lambda>k. k + start) ` B = B" by (simp add: image_image)
    finally show ?thesis unfolding A_def tree_nodes_def .
  qed
  have B'C': "B' \<inter> C' = {}"
  proof (rule ccontr)
    assume "B' \<inter> C' \<noteq> {}"
    then obtain x where xB: "x \<in> B'" and xC: "x \<in> C'" by auto
    from xB obtain b where b: "b \<in> B" and xs: "x \<in> set (map fst (N b))" unfolding B'_eq by auto
    from xC obtain b' s cov where b': "b' \<in> B" and sc: "(s, cov) \<in> set (N b')" and xc: "x \<in> set cov"
      unfolding C'_eq by auto
    show False
    proof (cases "b = b'")
      case True
      then show ?thesis using np4[OF b] xs sc xc by blast
    next
      case False
      have "x \<in> set (map_get cp b)" using np3[OF b] xs by blast
      moreover have "x \<in> set (map_get cp b')" using np2[OF b' sc] xc by blast
      ultimately show ?thesis using I(7)[OF b b' False] by blast
    qed
  qed
  have sorted': "sorted_wrt (<) (map_get (covert_points_old st') s)" if "s \<in> B'" for s
    using sample_entry[OF that] np2 by blast
  have disj': "set (map_get (covert_points_old st') s) \<inter> set (map_get (covert_points_old st') s') = {}"
    if s: "s \<in> B'" and s': "s' \<in> B'" and ne: "s \<noteq> s'" for s s'
  proof -
    from sample_entry[OF s] obtain b where b: "b \<in> B"
      and sc: "(s, map_get (covert_points_old st') s) \<in> set (N b)" by auto
    from sample_entry[OF s'] obtain b' where b': "b' \<in> B"
      and sc': "(s', map_get (covert_points_old st') s') \<in> set (N b')" by auto
    show ?thesis
    proof (cases "b = b'")
      case True
      then show ?thesis using np5[OF b sc _ ne] sc' by simp
    next
      case False
      have "set (map_get (covert_points_old st') s) \<subseteq> set (map_get cp b)" using np2[OF b sc] by blast
      moreover have "set (map_get (covert_points_old st') s') \<subseteq> set (map_get cp b')" using np2[OF b' sc'] by blast
      ultimately show ?thesis using I(7)[OF b b' False] by blast
    qed
  qed
  have m1: "- 1 \<in> keys (cover_tree st')" using lp(3) I(2) by simp
  have u: "A' \<union> B' \<union> C' = {0..<n}" using A'_eq BC' I(3) by blast
  have i1: "A' \<inter> B' = {}" using A'_eq BC' I(5) by blast
  have i2: "(A' \<union> B') \<inter> C' = {}" using A'_eq BC' I(5) B'C' by blast
  show "build_inv start n (level_pass d base start st)"
    unfolding build_inv_def st'_def[symmetric] A'_def[symmetric] B'_def[symmetric] C'_def[symmetric]
    using lp(1,2) m1 u i1 i2 sorted' disj' by (intro conjI ballI impI)
  show "tree_nodes start (cover_tree (level_pass d base start st))
           = tree_nodes start (cover_tree st) \<union> keys (covert_points_old st)"
    using A'_eq unfolding A'_def st'_def A_def B_def cp_def .
qed


lemma build_inv_initial:
  assumes "1 \<le> n" "0 \<le> start"
  shows "build_inv start n (initial_build_state start n)"
proof -
  have s: "sorted_wrt (<) [1..n - 1]" by (simp add: sorted_wrt_upto)
  have u: "{0} \<union> {1..n - 1} = {0..<n}" using assms(1) by auto
  show ?thesis
    unfolding build_inv_def initial_build_state_def
    using s u by (simp add: tree_nodes_def pending_def map_get_def)
qed

lemma card_tree_nodes:
  assumes "build_inv start n st"
  shows "int (length (cover_tree st)) - 1 = int (card (tree_nodes start (cover_tree st)))"
proof -
  have wf: "wf_map (cover_tree st)" and m: "- 1 \<in> keys (cover_tree st)"
    using assms by (auto simp: build_inv_def)
  have fin: "finite (keys (cover_tree st))" by (simp add: keys_def)
  have "card (tree_nodes start (cover_tree st)) = card (keys (cover_tree st) - {- 1})"
    unfolding tree_nodes_def by (rule card_image) (auto simp: inj_on_def)
  also have "\<dots> = card (keys (cover_tree st)) - 1" using m fin by simp
  finally have "card (tree_nodes start (cover_tree st)) = length (cover_tree st) - 1"
    using length_wf_map[OF wf] by simp
  moreover have "length (cover_tree st) \<ge> 1"
    using m length_wf_map[OF wf] fin card_gt_0_iff[of "keys (cover_tree st)"] by auto
  ultimately show ?thesis by simp
qed

lemma build_inv_nodes_subset:
  "build_inv start n st \<Longrightarrow> tree_nodes start (cover_tree st) \<subseteq> {0..<n}"
  unfolding build_inv_def by blast

lemma build_loop_terminates:
  fixes base :: real and d :: "int \<Rightarrow> int \<Rightarrow> real"
  assumes "build_inv start n st" "0 \<le> start" "0 \<le> n"
  shows "\<exists>st'. build_loop d base start n st = Some st' \<and> build_inv start n st'
           \<and> tree_nodes start (cover_tree st') = {0..<n}"
  using assms(1)
proof (induction "nat n - card (tree_nodes start (cover_tree st))" arbitrary: st rule: less_induct)
  case less
  define A where "A = tree_nodes start (cover_tree st)"
  have Asub: "A \<subseteq> {0..<n}" unfolding A_def by (rule build_inv_nodes_subset[OF less.prems])
  have cardA: "card A \<le> nat n"
    using card_mono[OF _ Asub] by simp
  have len: "int (length (cover_tree st)) - 1 = int (card A)"
    unfolding A_def by (rule card_tree_nodes[OF less.prems])
  show ?case
  proof (cases "int (length (cover_tree st)) - 1 \<noteq> n")
    case False
    then have "card A = nat n" using len assms(3) by simp
    then have "A = {0..<n}" using card_subset_eq[OF _ Asub] by simp
    moreover have "build_loop d base start n st = Some st"
      using False by (subst build_loop.simps) simp
    ultimately show ?thesis using less.prems unfolding A_def by simp
  next
    case True
    then have lt: "card A < nat n" using len cardA assms(3) by linarith
    define st1 where "st1 = level_pass d base start st"
    have inv1: "build_inv start n st1"
      unfolding st1_def by (rule level_pass_inv(1)[OF less.prems assms(2)])
    have A1: "tree_nodes start (cover_tree st1) = A \<union> keys (covert_points_old st)"
      unfolding st1_def A_def by (rule level_pass_inv(2)[OF less.prems assms(2)])
    have AB: "A \<inter> keys (covert_points_old st) = {}"
      and U: "A \<union> keys (covert_points_old st) \<union> pending (covert_points_old st) = {0..<n}"
      using less.prems unfolding build_inv_def A_def by auto
    have Bne: "keys (covert_points_old st) \<noteq> {}"
    proof
      assume e: "keys (covert_points_old st) = {}"
      then have "pending (covert_points_old st) = {}" by (simp add: pending_def)
      with U e have "A = {0..<n}" by simp
      then show False using lt by simp
    qed
    have finB: "finite (keys (covert_points_old st))" by (simp add: keys_def)
    have finA: "finite A" using Asub finite_subset by blast
    have "card (A \<union> keys (covert_points_old st)) = card A + card (keys (covert_points_old st))"
      using card_Un_disjoint[OF finA finB AB] .
    moreover have "card (keys (covert_points_old st)) > 0" using Bne finB by (simp add: card_gt_0_iff)
    ultimately have gt: "card (tree_nodes start (cover_tree st1)) > card A" unfolding A1 by simp
    have dec: "nat n - card (tree_nodes start (cover_tree st1)) < nat n - card (tree_nodes start (cover_tree st))"
      using gt lt unfolding A_def by linarith
    from less.hyps[OF dec inv1] obtain st' where
      r: "build_loop d base start n st1 = Some st'" "build_inv start n st'"
         "tree_nodes start (cover_tree st') = {0..<n}" by blast
    have "build_loop d base start n st = build_loop d base start n st1"
      using True unfolding st1_def by (subst build_loop.simps) simp
    with r show ?thesis by auto
  qed
qed

lemma keys_of_tree_nodes:
  assumes "build_inv start n st" "tree_nodes start (cover_tree st) = {0..<n}"
  shows "keys (cover_tree st) = insert (- 1) {start..<start + n}"
proof -
  have m: "- 1 \<in> keys (cover_tree st)" using assms(1) by (simp add: build_inv_def)
  have "(\<lambda>k. k + start) ` tree_nodes start (cover_tree st) = keys (cover_tree st) - {- 1}"
    unfolding tree_nodes_def by (simp add: image_image)
  moreover have "(\<lambda>k. k + start) ` {0..<n} = {start..<start + n}"
    by (auto simp: image_iff intro: bexI[of _ "_ - start"])
  ultimately have "keys (cover_tree st) - {- 1} = {start..<start + n}" using assms(2) by simp
  with m show ?thesis by auto
qed

subsection \<open>The shape of the finished tree\<close>







text \<open>
  The tree that \<open>CoverTree_kNN\<close> returns for \<open>n\<close> points at offset \<open>0\<close>, with the parent
  \<open>par\<close>, the depth \<open>dep\<close> and the cover \<open>Cv\<close> of each node.
\<close>

definition tree_ok ::
  "(int \<Rightarrow> int \<Rightarrow> real) \<Rightarrow> real \<Rightarrow> int \<Rightarrow> (int \<Rightarrow> int) \<Rightarrow> (int \<Rightarrow> nat) \<Rightarrow> (int \<Rightarrow> int set)
     \<Rightarrow> int_map \<Rightarrow> int \<Rightarrow> bool" where
  "tree_ok d base n par dep Cv ct lv \<longleftrightarrow>
     map_get ct (- 1) = [0]
     \<and> (\<forall>a \<in> {0..<n}. \<exists>ks. map_get ct a = a # ks \<and> sorted_wrt (<) ks
            \<and> set ks = {c \<in> {0..<n}. c \<noteq> 0 \<and> par c = a})
     \<and> dep 0 = 0
     \<and> (\<forall>a \<in> {0..<n}. int (dep a) < lv)
     \<and> (\<forall>p \<in> {0..<n}. p \<noteq> 0 \<longrightarrow>
            par p \<in> {0..<n} \<and> par p < p \<and> dep p = dep (par p) + 1
            \<and> p \<in> Cv (par p) \<and> Cv p \<subseteq> Cv (par p)
            \<and> (\<forall>x \<in> Cv p. d p x \<le> 1 / base ^ dep p))"


section \<open>Properties of the nearest-neighbor scan\<close>


fun insert_after :: "real \<times> int \<Rightarrow> (real \<times> int) list \<Rightarrow> (real \<times> int) list" where
  "insert_after c [] = [c]"
| "insert_after c (y # ys) = (if fst c < fst y then c # y # ys else y # insert_after c ys)"

definition stable_sorted :: "(real \<times> int) list \<Rightarrow> (real \<times> int) list" where
  "stable_sorted cs = fold insert_after cs []"






lemma length_insert_after [simp]: "length (insert_after c T) = Suc (length T)"
  by (induction T) auto

lemma insert_after_not_Nil [simp]: "insert_after c T \<noteq> []"
  by (cases T) auto



lemma set_insert_after [simp]: "set (insert_after c T) = insert c (set T)"
  by (induction T) auto

lemma sorted_insert_after:
  assumes "sorted (map fst T)"
  shows "sorted (map fst (insert_after c T))"
  using assms by (induction T) auto

lemma distinct_insert_after:
  "distinct (map f (insert_after c T)) \<longleftrightarrow> f c \<notin> f ` set T \<and> distinct (map f T)"
  by (induction T) auto

lemma stable_sorted_snoc: "stable_sorted (cs @ [c]) = insert_after c (stable_sorted cs)"
  by (simp add: stable_sorted_def)

lemma stable_sorted_props:
  "sorted (map fst (stable_sorted cs)) \<and> length (stable_sorted cs) = length cs
   \<and> set (stable_sorted cs) = set cs
   \<and> (distinct (map f cs) \<longrightarrow> distinct (map f (stable_sorted cs)))"
proof (induction cs rule: rev_induct)
  case Nil
  then show ?case by (simp add: stable_sorted_def)
next
  case (snoc c cs)
  then show ?case
    by (auto simp: stable_sorted_snoc sorted_insert_after distinct_insert_after)
qed


lemma length_stable_sorted [simp]: "length (stable_sorted cs) = length cs"
  using stable_sorted_props[where cs=cs and f=fst] by simp

lemma set_stable_sorted [simp]: "set (stable_sorted cs) = set cs"
  using stable_sorted_props[where cs=cs and f=fst] by simp














section \<open>Properties of the cover-tree query\<close>





lemma tree_ok_par:
  assumes "tree_ok d base n par dep Cv ct lv" "p \<in> {0..<n}" "p \<noteq> 0"
  shows "par p \<in> {0..<n}" "par p < p" "dep p = dep (par p) + 1" "p \<in> Cv (par p)"
    "Cv p \<subseteq> Cv (par p)" "\<And>x. x \<in> Cv p \<Longrightarrow> d p x \<le> 1 / base ^ dep p"
  using assms unfolding tree_ok_def by blast+

text \<open>The proper descendants of a node.\<close>

inductive desc :: "(int \<Rightarrow> int) \<Rightarrow> int \<Rightarrow> int \<Rightarrow> int \<Rightarrow> bool" for par :: "int \<Rightarrow> int" and n :: int where
  kid: "p \<in> {0..<n} \<Longrightarrow> p \<noteq> 0 \<Longrightarrow> par p = r \<Longrightarrow> desc par n r p"
| step: "p \<in> {0..<n} \<Longrightarrow> p \<noteq> 0 \<Longrightarrow> desc par n r (par p) \<Longrightarrow> desc par n r p"



lemma dep_zero_root:
  assumes ok: "tree_ok d base n par dep Cv ct lv" and "p \<in> {0..<n}" "dep p = 0"
  shows "p = 0"
  using tree_ok_par(3)[OF ok assms(2)] assms(3) by auto

































section \<open>Claim about the distance kernel\<close>

lemma sum_list_map2_nth:
  fixes f :: "real \<Rightarrow> real \<Rightarrow> real"
  assumes "length a = length b"
  shows "sum_list (map2 f a b) = (\<Sum>r<length a. f (a ! r) (b ! r))"
proof -
  have "sum_list (map2 f a b) = (\<Sum>r = 0..<length (map2 f a b). map2 f a b ! r)"
    by (rule sum_list_sum_nth)
  also have "\<dots> = (\<Sum>r<length a. f (a ! r) (b ! r))"
    using assms by (intro sum.cong) auto
  finally show ?thesis .
qed

lemma dot_sum:
  assumes "length a = length b"
  shows "dot a b = (\<Sum>r<length a. a ! r * b ! r)"
  unfolding dot_def by (rule sum_list_map2_nth[OF assms])

lemma lpNorm2_diff_sum:
  assumes "length a = length b"
  shows "lpNorm2_diff a b = sqrt (\<Sum>r<length a. (a ! r - b ! r)\<^sup>2)"
  unfolding lpNorm2_diff_def using sum_list_map2_nth[OF assms, of "\<lambda>x y. (x - y) * (x - y)"]
  by (simp add: power2_eq_square)

lemma radicand_sign:
  fixes rho :: real
  shows "1 - \<bar>rho\<bar> powr (1 / 10) < 0 \<longleftrightarrow> \<not> \<bar>rho\<bar> \<le> 1"
proof
  assume "1 - \<bar>rho\<bar> powr (1 / 10) < 0"
  then have "1 < \<bar>rho\<bar> powr (1 / 10)" by simp
  then show "\<not> \<bar>rho\<bar> \<le> 1"
    using powr_le1[of "1 / 10" "\<bar>rho\<bar>"] by auto
next
  assume "\<not> \<bar>rho\<bar> \<le> 1"
  then have "1 < \<bar>rho\<bar>" by simp
  then have "1 powr (1 / 10) < \<bar>rho\<bar> powr (1 / 10)"
    by (intro powr_less_mono2) auto
  then show "1 - \<bar>rho\<bar> powr (1 / 10) < 0" by simp
qed

lemma distance_entry_positive:
  assumes "0 < a" "0 < b"
  shows "distance_entry c pp a b =
           (if \<bar>(c - pp) / sqrt (a * b)\<bar> \<le> 1
            then Num (sqrt (1 - \<bar>(c - pp) / sqrt (a * b)\<bar> powr (1 / 10))) else NaN)"
proof -
  have "\<not> a * b \<le> 0" using assms by (simp add: mult_le_0_iff)
  then show ?thesis
    unfolding distance_entry_def Let_def using radicand_sign[of "(c - pp) / sqrt (a * b)"]
    by simp
qed

text \<open>
  Claim C2: for a query index \<open>i\<close> and a candidate list \<open>J\<close> within the containers, with
  positive \<open>corr_diag\<close> entries, \<open>distances_funct\<close> with \<open>dist_function =
  "residual_correlation_FSA"\<close> writes at each position \<open>p\<close> of \<open>J\<close> the value
  \<open>sqrt (1 - |rho| ^ 0.1)\<close> for \<open>rho = (k(x_i, x_j) - Q[:,i]^T Q[:,j]) /
  sqrt (corr_diag[i] * corr_diag[j])\<close> and \<open>j = J[p]\<close>, leaves the rest of the output
  vector as it was, and leaves the component vector, its only other writable
  parameter, as it was.  The value is that of the formula in the arithmetic of
  \<open>double\<close>: the finite root when \<open>|rho| \<le> 1\<close>, and \<open>NaN\<close>, the root of a negative
  number, beyond.  The inner product and the Euclidean distances handed to the
  covariance module are written out as sums over the \<open>m\<close> rows of \<open>Q\<close> and the \<open>n_cols\<close>
  columns of the coordinate matrix.  The covariance module is the external
  collaborator of the specification: it is assumed to fill its output with the values
  \<open>k(x_i, x_j)\<close> of a function \<open>k\<close> of the two rows, when it is given the Euclidean
  distances if they are saved and no distances otherwise, and to leave its component
  unchanged.
\<close>

theorem C2_distances_funct:
  fixes k :: "real list \<Rightarrow> real list \<Rightarrow> real"
  assumes "in_range i coords" "in_range i corr_diag" "in_range i Qm"
    and "\<forall>j \<in> set J. in_range j coords \<and> in_range j corr_diag \<and> in_range j Qm"
    and "\<forall>row \<in> set coords. length row = n_cols" and "\<forall>col \<in> set Qm. length col = m"
    and "0 < corr_diag ! nat i" and "\<forall>j \<in> set J. 0 < corr_diag ! nat j"
    and "length J \<le> length distances"
    and "CalcSigma first_comp
           (if saved
            then map (\<lambda>j. sqrt (\<Sum>r<n_cols. (coords ! nat j ! r - coords ! nat i ! r)\<^sup>2)) J
            else [])
           (coords ! nat i) (map (\<lambda>j. coords ! nat j) J)
         = (map (\<lambda>j. k (coords ! nat i) (coords ! nat j)) J, first_comp)"
  shows "\<exists>ds. distances_funct CalcSigma i J coords corr_diag Qm (first_comp # others) distances
               ''residual_correlation_FSA'' saved = Inr (ds, first_comp # others)
          \<and> length ds = length distances
          \<and> (\<forall>p < length J.
               let rho = (k (coords ! nat i) (coords ! nat (J ! p))
                          - (\<Sum>r<m. Qm ! nat i ! r * Qm ! nat (J ! p) ! r))
                         / sqrt (corr_diag ! nat i * corr_diag ! nat (J ! p))
               in ds ! p = (if \<bar>rho\<bar> \<le> 1 then Num (sqrt (1 - \<bar>rho\<bar> powr (1 / 10))) else NaN))
          \<and> (\<forall>p. length J \<le> p \<longrightarrow> p < length distances \<longrightarrow> ds ! p = distances ! p)"
proof -
  define cm where "cm = map (\<lambda>j. k (coords ! nat i) (coords ! nat j)) J"
  define ds where "ds = map (\<lambda>j. distance_entry (cm ! j) (pp_node_of Qm i J ! j) (corr_diag ! nat i)
                                      (corr_diag ! nat (J ! j))) [0 ..< length J]
                        @ drop (length J) distances"
  have row: "length (coords ! nat j) = n_cols" if "in_range j coords" for j
  proof -
    have "nat j < length coords" using that by (auto simp: in_range_def)
    then have "coords ! nat j \<in> set coords" by (rule nth_mem)
    then show ?thesis using assms(5) by blast
  qed
  have col: "length (Qm ! nat j) = m" if "in_range j Qm" for j
  proof -
    have "nat j < length Qm" using that by (auto simp: in_range_def)
    then have "Qm ! nat j \<in> set Qm" by (rule nth_mem)
    then show ?thesis using assms(6) by blast
  qed
  have dist: "dist_ij_of saved coords i J =
      (if saved then map (\<lambda>j. sqrt (\<Sum>r<n_cols. (coords ! nat j ! r - coords ! nat i ! r)\<^sup>2)) J else [])"
  proof -
    have "lpNorm2_diff (coords ! nat j) (coords ! nat i)
          = sqrt (\<Sum>r<n_cols. (coords ! nat j ! r - coords ! nat i ! r)\<^sup>2)" if "j \<in> set J" for j
      using lpNorm2_diff_sum[of "coords ! nat j" "coords ! nat i"] row[OF assms(1)] row[of j]
        assms(4) that by simp
    then show ?thesis by (simp add: dist_ij_of_def)
  qed
  have call: "CalcSigma first_comp (dist_ij_of saved coords i J) (coords ! nat i)
                (map (\<lambda>j. coords ! nat j) J) = (cm, first_comp)"
    unfolding dist cm_def by (rule assms(10))
  have ok: "list_all (\<lambda>j. in_range j coords \<and> in_range j corr_diag \<and> in_range j Qm) J"
    using assms(4) by (simp add: list_all_iff)
  have run: "distances_funct CalcSigma i J coords corr_diag Qm (first_comp # others) distances
               ''residual_correlation_FSA'' saved = Inr (ds, first_comp # others)"
    using assms(1-3,9) ok call by (simp add: distances_funct_def Let_def ds_def cm_def)
  have len: "length ds = length distances" using assms(9) by (simp add: ds_def)
  have val: "ds ! p = (if \<bar>(k (coords ! nat i) (coords ! nat (J ! p))
                          - (\<Sum>r<m. Qm ! nat i ! r * Qm ! nat (J ! p) ! r))
                         / sqrt (corr_diag ! nat i * corr_diag ! nat (J ! p))\<bar> \<le> 1
                       then Num (sqrt (1 - \<bar>(k (coords ! nat i) (coords ! nat (J ! p))
                          - (\<Sum>r<m. Qm ! nat i ! r * Qm ! nat (J ! p) ! r))
                         / sqrt (corr_diag ! nat i * corr_diag ! nat (J ! p))\<bar> powr (1 / 10)))
                       else NaN)" if p: "p < length J" for p
  proof -
    have Jp: "J ! p \<in> set J" using p by simp
    have e: "ds ! p = distance_entry (cm ! p) (pp_node_of Qm i J ! p) (corr_diag ! nat i)
                        (corr_diag ! nat (J ! p))"
      using p by (simp add: ds_def nth_append)
    have c: "cm ! p = k (coords ! nat i) (coords ! nat (J ! p))" using p by (simp add: cm_def)
    have "pp_node_of Qm i J ! p = dot (Qm ! nat (J ! p)) (Qm ! nat i)"
      using p by (simp add: pp_node_of_def)
    also have "\<dots> = (\<Sum>r<m. Qm ! nat (J ! p) ! r * Qm ! nat i ! r)"
      using dot_sum[of "Qm ! nat (J ! p)" "Qm ! nat i"] col[OF assms(3)] col[of "J ! p"] assms(4) Jp
      by simp
    also have "\<dots> = (\<Sum>r<m. Qm ! nat i ! r * Qm ! nat (J ! p) ! r)"
      by (simp add: mult.commute)
    finally have pp: "pp_node_of Qm i J ! p = (\<Sum>r<m. Qm ! nat i ! r * Qm ! nat (J ! p) ! r)" .
    show ?thesis unfolding e c pp
      by (rule distance_entry_positive) (use assms(7,8) Jp in auto)
  qed
  have rest: "ds ! p = distances ! p" if "length J \<le> p" "p < length distances" for p
    using that by (simp add: ds_def nth_append)
  show ?thesis unfolding Let_def using run len val rest by blast
qed

theorem C2_distances_funct_witness:
  "distances_funct (\<lambda>s dist_ij coords_i coords_j. (map (\<lambda>x. 1 / (1 + x)) dist_ij, s))
      2 [0, 1] [[0], [4], [3]] [4, 1, 1] [[1 / 2], [1 / 2], [1 / 4]] [5 :: nat]
      [Num 7, Num 7, Num 9] ''residual_correlation_FSA'' True
   = Inr ([Num (sqrt (1 - (1 / 16) powr (1 / 10))), Num (sqrt (1 - (3 / 8) powr (1 / 10))), Num 9],
          [5])"
proof -
  let ?calc = "\<lambda>(s::nat) (dist_ij :: real list) (coords_i :: real list) (coords_j :: real list list).
                 (map (\<lambda>x. 1 / (1 + x)) dist_ij, s)"
  let ?k = "\<lambda>(x :: real list) (y :: real list). 1 / (1 + \<bar>y ! 0 - x ! 0\<bar>)"
  from C2_distances_funct [of 2 "[[0], [4], [3]]" "[4, 1, 1]" "[[1 / 2], [1 / 2], [1 / 4]]"
      "[0, 1]" 1 1 "[Num 7, Num 7, Num 9]" ?calc 5 True ?k "[]"]
  obtain ds where run: "distances_funct ?calc 2 [0, 1] [[0], [4], [3]] [4, 1, 1]
        [[1 / 2], [1 / 2], [1 / 4]] [5] [Num 7, Num 7, Num 9] ''residual_correlation_FSA'' True
        = Inr (ds, [5])"
    and len: "length ds = 3"
    and v0: "ds ! 0 = Num (sqrt (1 - (1 / 16) powr (1 / 10)))"
    and v1: "ds ! 1 = Num (sqrt (1 - (3 / 8) powr (1 / 10)))"
    and v2: "ds ! 2 = Num 9"
    by (auto simp: in_range_def Let_def numeral_2_eq_2 less_Suc_eq)
  have "ds = [Num (sqrt (1 - (1 / 16) powr (1 / 10))), Num (sqrt (1 - (3 / 8) powr (1 / 10))), Num 9]"
    using len v0 v1 v2 by (auto simp: length_Suc_conv numeral_3_eq_3)
  with run show ?thesis by simp
qed

section \<open>Claim about the cover-tree query\<close>








section \<open>Claim about the cover-tree construction\<close>

text \<open>
  Claim C6: for every segment of \<open>n \<ge> 1\<close> points at an offset \<open>start \<ge> 0\<close>, and every
  distance and base, the construction loop of \<open>CoverTree_kNN\<close> terminates, and the tree
  it returns has exactly one entry for each point of the segment, under the key of the
  point offset by \<open>start\<close>, next to the entry \<open>-1\<close> of the root.
\<close>

theorem C6_cover_tree_terminates:
  fixes base :: real and d :: "int \<Rightarrow> int \<Rightarrow> real"
  assumes "1 \<le> n" "0 \<le> start"
  shows "\<exists>tree lv. CoverTree_kNN d base start n = Some (Inr (tree, lv))
           \<and> distinct (map fst tree)
           \<and> set (map fst tree) = insert (- 1) {start..<start + n}
           \<and> int (length tree) = n + 1"
proof -
  have n0: "0 \<le> n" using assms(1) by simp
  from build_loop_terminates[OF build_inv_initial[OF assms] assms(2) n0, of d base]
  obtain st' where r: "build_loop d base start n (initial_build_state start n) = Some st'"
    "build_inv start n st'" "tree_nodes start (cover_tree st') = {0..<n}" by blast
  have run: "CoverTree_kNN d base start n = Some (Inr (cover_tree st', level st'))"
    using assms(1) r(1) by (simp add: CoverTree_kNN_def)
  have wf: "wf_map (cover_tree st')" using r(2) by (simp add: build_inv_def)
  have k: "set (map fst (cover_tree st')) = insert (- 1) {start..<start + n}"
    using keys_of_tree_nodes[OF r(2,3)] by (simp add: keys_def)
  have "int (length (cover_tree st')) - 1 = int (card {0..<n})"
    using card_tree_nodes[OF r(2)] r(3) by simp
  then have l: "int (length (cover_tree st')) = n + 1" using n0 by simp
  show ?thesis using run wf_map_distinct[OF wf] k l by blast
qed

theorem C6_cover_tree_terminates_witness:
  "(1::int) \<le> 5 \<and> (0::int) \<le> 0
   \<and> CoverTree_kNN example_distance 2 0 5 = Some (Inr (example_tree, 4))
   \<and> distinct (map fst example_tree)
   \<and> set (map fst example_tree) = insert (- 1) {0..<0 + 5}
   \<and> int (length example_tree) = 5 + 1"
  using C6_cover_tree_terminates [of 5 0 example_distance 2] example_tree_built
  by (auto simp: example_tree_def)

section \<open>Claim about the predicted-first prediction\<close>

lemma sum_diag_right:
  fixes f v :: "nat \<Rightarrow> real"
  shows "k < m \<Longrightarrow> (\<Sum>l<m. f l * (if l = k then v l else 0)) = f k * v k"
proof -
  assume k: "k < m"
  have "(\<Sum>l<m. f l * (if l = k then v l else 0)) = (\<Sum>l\<in>{..<m}. if l = k then f k * v k else (0::real))"
    by (rule sum.cong) auto
  also have "\<dots> = f k * v k" using k by simp
  finally show ?thesis .
qed

lemma sum_diag_left:
  fixes f :: "nat \<Rightarrow> real"
  shows "k < m \<Longrightarrow> (\<Sum>l<m. (if k = l then c else 0) * f l) = c * f k"
proof -
  assume k: "k < m"
  have "(\<Sum>l<m. (if k = l then c else 0) * f l) = (\<Sum>l\<in>{..<m}. if l = k then c * f k else 0)"
    by (rule sum.cong) auto
  also have "\<dots> = c * f k" using k by simp
  finally show ?thesis .
qed

lemma mat_mul_diag: "k < m \<Longrightarrow> mat_mul m (transpose_m B) (asDiagonal v) i k = B k i * v k"
  by (simp add: mat_mul_def transpose_m_def asDiagonal_def sum_diag_right)

lemma cond_prec_entry:
  "cond_prec np no Bp Bop (reciprocals Dp) (reciprocals Do) i j = spec_precision np no Bp Bop Dp Do i j"
proof -
  have 1: "mat_mul np (mat_mul np (transpose_m Bp) (asDiagonal (reciprocals Dp))) Bp i j
        = (\<Sum>k<np. Bp k i * inverse (Dp k) * Bp k j)"
    unfolding mat_mul_def [of np _ Bp]
    by (rule sum.cong) (simp_all add: mat_mul_diag reciprocals_def inverse_eq_divide)
  have 2: "mat_mul no (mat_mul no (transpose_m Bop) (asDiagonal (reciprocals Do))) Bop i j
        = (\<Sum>k<no. Bop k i * inverse (Do k) * Bop k j)"
    unfolding mat_mul_def [of no _ Bop]
    by (rule sum.cong) (simp_all add: mat_mul_diag reciprocals_def inverse_eq_divide)
  show ?thesis by (simp add: cond_prec_def mat_add_def spec_precision_def 1 2)
qed

lemma y_aux_spec: "y_aux no Bop Bo (reciprocals Do) y i = spec_rhs no Bop Bo Do y i"
proof -
  have l: "y_aux no Bop Bo (reciprocals Do) y i = (\<Sum>k<no. Bop k i * inverse (Do k) * (\<Sum>l<no. Bo k l * y l))"
    unfolding y_aux_def mat_vec_def [of no "transpose_m Bop"]
    by (rule sum.cong) (simp_all add: mat_vec_def asDiagonal_def sum_diag_left transpose_m_def reciprocals_def inverse_eq_divide)
  have "spec_rhs no Bop Bo Do y i = (\<Sum>l<no. (\<Sum>k<no. Bop k i * inverse (Do k) * Bo k l) * y l)"
    unfolding spec_rhs_def mat_vec_def mat_mul_def [of no _ Bo]
    by (rule sum.cong, simp, rule arg_cong [where f = "\<lambda>x. x * _"], rule sum.cong) (simp_all add: mat_mul_diag)
  also have "\<dots> = (\<Sum>l<no. \<Sum>k<no. Bop k i * inverse (Do k) * Bo k l * y l)"
    by (simp add: sum_distrib_right)
  also have "\<dots> = (\<Sum>k<no. \<Sum>l<no. Bop k i * inverse (Do k) * Bo k l * y l)"
    by (rule sum.swap)
  also have "\<dots> = (\<Sum>k<no. Bop k i * inverse (Do k) * (\<Sum>l<no. Bo k l * y l))"
    by (simp add: sum_distrib_left mult.assoc)
  finally show ?thesis using l by simp
qed

lemma mat_vec_neg: "mat_vec m A (vec_neg x) i = - mat_vec m A x i"
  by (simp add: mat_vec_def vec_neg_def sum_negf)

text \<open>
  Claim C7: in the predicted-first path the matrix handed to the Cholesky solver is
  \<open>P = B\<^sub>p\<^sup>T D\<^sub>p\<^sup>-\<^sup>1 B\<^sub>p + B\<^sub>o\<^sub>p\<^sup>T D\<^sub>o\<^sup>-\<^sup>1 B\<^sub>o\<^sub>p\<close>, and the predictive mean \<open>mu\<close>
  satisfies \<open>P mu = - B\<^sub>o\<^sub>p\<^sup>T D\<^sub>o\<^sup>-\<^sup>1 B\<^sub>o y\<close>, given that the solver returns a
  solution of the system it is handed.
\<close>

theorem C7_pred_mean_system:
  assumes "\<forall>i<np. mat_vec np (cond_prec np no Bp Bop (reciprocals Dp) (reciprocals Do))
                    (chol_solve (cond_prec np no Bp Bop (reciprocals Dp) (reciprocals Do))
                       (y_aux no Bop Bo (reciprocals Do) y)) i
                 = y_aux no Bop Bo (reciprocals Do) y i"
  shows "cond_prec np no Bp Bop (reciprocals Dp) (reciprocals Do) = spec_precision np no Bp Bop Dp Do
       \<and> (\<forall>i<np. mat_vec np (spec_precision np no Bp Bop Dp Do)
                   (pred_mean chol_solve np no Bp Bop Bo Dp Do y) i
                 = - spec_rhs no Bop Bo Do y i)"
proof -
  have P: "cond_prec np no Bp Bop (reciprocals Dp) (reciprocals Do) = spec_precision np no Bp Bop Dp Do"
    by (intro ext) (rule cond_prec_entry)
  show ?thesis
    using assms unfolding P
    by (simp add: pred_mean_def mat_vec_neg P y_aux_spec)
qed

theorem C7_pred_mean_system_witness:
  "mat_vec 1 (cond_prec 1 1 (\<lambda>i j. 1) (\<lambda>i j. 2) (reciprocals (\<lambda>i. 2)) (reciprocals (\<lambda>i. 4)))
      ((\<lambda>P b i. b i / P 0 0)
         (cond_prec 1 1 (\<lambda>i j. 1) (\<lambda>i j. 2) (reciprocals (\<lambda>i. 2)) (reciprocals (\<lambda>i. 4)))
         (y_aux 1 (\<lambda>i j. 2) (\<lambda>i j. 1) (reciprocals (\<lambda>i. 4)) (\<lambda>i. 3))) 0
     = y_aux 1 (\<lambda>i j. 2) (\<lambda>i j. 1) (reciprocals (\<lambda>i. 4)) (\<lambda>i. 3) 0
   \<and> spec_precision 1 1 (\<lambda>i j. 1) (\<lambda>i j. 2) (\<lambda>i. 2) (\<lambda>i. 4) 0 0 = 3 / 2
   \<and> pred_mean (\<lambda>P b i. b i / P 0 0) 1 1 (\<lambda>i j. 1) (\<lambda>i j. 2) (\<lambda>i j. 1) (\<lambda>i. 2) (\<lambda>i. 4) (\<lambda>i. 3) 0 = - 1
   \<and> mat_vec 1 (spec_precision 1 1 (\<lambda>i j. 1) (\<lambda>i j. 2) (\<lambda>i. 2) (\<lambda>i. 4))
        (pred_mean (\<lambda>P b i. b i / P 0 0) 1 1 (\<lambda>i j. 1) (\<lambda>i j. 2) (\<lambda>i j. 1) (\<lambda>i. 2) (\<lambda>i. 4) (\<lambda>i. 3)) 0
      = - spec_rhs 1 (\<lambda>i j. 2) (\<lambda>i j. 1) (\<lambda>i. 4) (\<lambda>i. 3) 0"
  using C7_pred_mean_system [of 1 1 "\<lambda>i j. 1" "\<lambda>i j. 2" "\<lambda>i. 2" "\<lambda>i. 4" "\<lambda>P b i. b i / P 0 0" "\<lambda>i j. 1" "\<lambda>i. 3"]
  by (simp add: mat_vec_def cond_prec_def y_aux_def mat_mul_def mat_add_def transpose_m_def
      asDiagonal_def reciprocals_def spec_precision_def pred_mean_def vec_neg_def)


section \<open>Claim about the final check of the factor\<close>

text \<open>
  Claim C5 says that a diagonal entry \<open>D[i,i]\<close> that is negative or zero is reported, as
  the message of the code itself does.  The code tests the reciprocals.  At the first
  point of a Gaussian model under \<open>full_scale_vecchia\<close> with marginal variance \<open>1.25\<close>
  and \<open>chol_ip_cross_cov\<close> column \<open>(1.5)\<close>, \<open>D[0,0] = 1 - 2.25 + 1.25\<close> is exactly
  zero, its reciprocal is \<open>+inf\<close>, and nothing is logged; for a non-Gaussian likelihood
  a zero diagonal entry does not abort.  A negative entry is reported in both modes.
\<close>

theorem C5_zero_D_not_reported:
  "D_first_point True True 1 ''full_scale_vecchia'' [3 / 2] (5 / 4) = 0
   \<and> finish_CalcCovFactorVecchia True
        [Num (D_first_point True True 1 ''full_scale_vecchia'' [3 / 2] (5 / 4))]
       = Inr ([PInf], [])
   \<and> finish_CalcCovFactorVecchia False [Num 0] = Inr ([PInf], [])
   \<and> finish_CalcCovFactorVecchia False [Num (- 1)] = Inl (Fatal NonPositiveD)
   \<and> finish_CalcCovFactorVecchia True [Num (- 1)]
       = Inr ([Num (- 1)], [(Warning, NonPositiveD)])"
  by (simp add: D_first_point_def finish_CalcCovFactorVecchia_def check_min_D_inv_def
      invert_D_def)

section \<open>Claims about the orchestration\<close>

text \<open>
  Claim C8, as stated: whenever the requested number of neighbors exceeds \<open>n - 1\<close> it is
  clamped to \<open>n - 1\<close>.  The code clamps against \<open>end_search_at + 1\<close>; for a caller that
  passes a non-negative \<open>end_search_at\<close> (the prediction path conditioning on observed
  points only passes \<open>num_re_cli - 1\<close>) the result is not \<open>n - 1\<close>: with \<open>n = 10\<close>,
  \<open>k = 12\<close>, \<open>end_search_at = 4\<close> the clamped value is \<open>5\<close>.
\<close>

theorem C8_clamp_counterexample:
  "(12::int) > 10 - 1 \<and> fst (clamp_num_neighbors 10 12 4) \<noteq> 10 - 1"
  by (simp add: clamp_num_neighbors_def default_end_search_at_def)

text \<open>
  Claim C8, amended: if the requested number of neighbors exceeds \<open>end_search_at + 1\<close>,
  where a negative \<open>end_search_at\<close> stands for \<open>n - 2\<close>, it is clamped to
  \<open>end_search_at + 1\<close> and the change is logged, otherwise it is unchanged and nothing is
  logged; in particular, for a negative \<open>end_search_at\<close> a request above \<open>n - 1\<close> is
  clamped to \<open>n - 1\<close> and logged.  The code after the clamp reads only the clamped
  variable.
\<close>

theorem C8_clamp_num_neighbors:
  "clamp_num_neighbors n k e =
     (if k > default_end_search_at n e + 1
      then (default_end_search_at n e + 1,
            [NumNeighborsReduced k (default_end_search_at n e + 2)
               (default_end_search_at n e + 1)])
      else (k, []))
   \<and> (e < 0 \<longrightarrow> default_end_search_at n e + 1 = n - 1)
   \<and> (e < 0 \<and> k > n - 1 \<longrightarrow>
        clamp_num_neighbors n k e = (n - 1, [NumNeighborsReduced k n (n - 1)]))
   \<and> fst (clamp_num_neighbors n k e) \<le> default_end_search_at n e + 1"
  by (auto simp: clamp_num_neighbors_def default_end_search_at_def Let_def)

theorem C8_clamp_num_neighbors_witness:
  "(-1::int) < 0 \<and> (12::int) > 10 - 1
   \<and> clamp_num_neighbors 10 12 (-1) = (9, [NumNeighborsReduced 12 10 9])"
  using C8_clamp_num_neighbors [of 10 12 "-1"]
  by (simp add: default_end_search_at_def)

text \<open>
  Claim C4, as stated: in prediction mode the threshold is \<open>min n (max (start + 500) k)\<close>.
  The code adds 500 to \<open>first_i\<close>, which is \<open>k + 1\<close> when \<open>start_at \<le> k\<close>.  With
  \<open>n = 2000\<close>, \<open>k = 10\<close>, \<open>start_at = 5\<close> in prediction mode, the point \<open>i = 507\<close> is at
  or above the stated threshold \<open>505\<close> but is handled by the brute-force loop, not by
  the cover-tree loop.
\<close>

theorem C4_threshold_counterexample:
  "(10::int) < 507 \<and> (5::int) \<le> 507 \<and> (507::int) < 2000
   \<and> \<not> (507::int) < min 2000 (max (5 + 500) 10)
   \<and> 507 \<in> set (brute_force_indices 2000 10 5 True)
   \<and> 507 \<notin> set (cover_tree_indices 2000 10 5 True)"
  by (simp add: brute_force_indices_def cover_tree_indices_def first_i_def
      brute_force_threshold_def)

text \<open>
  Claim C4, amended: a point \<open>i\<close> of the output range (\<open>start_at \<le> i < n\<close>) with
  \<open>k < i\<close> is handled by the brute-force loop exactly when \<open>i\<close> is below the threshold,
  and by the cover-tree loop exactly when it is at or above it, where the threshold is
  \<open>min n (max 1000 k)\<close>, or in prediction mode \<open>min n (max (first_i + 500) k)\<close> with
  \<open>first_i = k + 1\<close> if \<open>start_at \<le> k\<close> and \<open>first_i = start_at\<close> otherwise.
\<close>

theorem C4_search_regime:
  assumes "k < i" and "start_at \<le> i" and "i < n"
  shows "(i \<in> set (brute_force_indices n k start_at prediction)
            \<longleftrightarrow> i < brute_force_threshold n k start_at prediction)
       \<and> (i \<in> set (cover_tree_indices n k start_at prediction)
            \<longleftrightarrow> brute_force_threshold n k start_at prediction \<le> i)
       \<and> brute_force_threshold n k start_at prediction =
           (if prediction
            then min n (max ((if start_at \<le> k then k + 1 else start_at) + 500) k)
            else min n (max 1000 k))"
  using assms
  by (auto simp: brute_force_indices_def cover_tree_indices_def first_i_def
      brute_force_threshold_def)

theorem C4_search_regime_witness:
  "(10::int) < 507 \<and> (5::int) \<le> 507 \<and> (507::int) < 2000
   \<and> 507 \<in> set (brute_force_indices 2000 10 5 True)
   \<and> 511 \<in> set (cover_tree_indices 2000 10 5 True)
   \<and> brute_force_threshold 2000 10 5 True = 511"
  using C4_search_regime [of 10 507 5 2000 True] C4_search_regime [of 10 511 5 2000 True]
  by simp

end
